theory Spec2Isabelle
  imports Main
begin

section \<open>The built-in Map\<close>

text \<open>
  The container keeps its pairs in two built-in \<open>Map\<close> objects. A \<open>Map\<close> iterates in
  insertion order and holds each key once, so it is modelled as an association list in
  iteration order. Keys are compared with HOL equality (the source's SameValueZero).
  \<open>set\<close> on a key that is present overwrites the value in place and keeps the position;
  on a new key it appends. \<open>get\<close> on a missing key gives \<open>undefined\<close>, here \<open>None\<close>.
\<close>

type_synonym ('a, 'b) jsmap = "('a \<times> 'b) list"

definition Map_new :: "('a, 'b) jsmap" where
  "Map_new = []"

fun Map_has :: "('a, 'b) jsmap \<Rightarrow> 'a \<Rightarrow> bool" where
  "Map_has [] k = False"
| "Map_has (p # m) k = (if fst p = k then True else Map_has m k)"

fun Map_get :: "('a, 'b) jsmap \<Rightarrow> 'a \<Rightarrow> 'b option" where
  "Map_get [] k = None"
| "Map_get (p # m) k = (if fst p = k then Some (snd p) else Map_get m k)"

fun Map_set :: "('a, 'b) jsmap \<Rightarrow> 'a \<Rightarrow> 'b \<Rightarrow> ('a, 'b) jsmap" where
  "Map_set [] k v = [(k, v)]"
| "Map_set (p # m) k v = (if fst p = k then (k, v) # m else p # Map_set m k v)"

fun Map_delete :: "('a, 'b) jsmap \<Rightarrow> 'a \<Rightarrow> ('a, 'b) jsmap" where
  "Map_delete [] k = []"
| "Map_delete (p # m) k = (if fst p = k then Map_delete m k else p # Map_delete m k)"

definition Map_clear :: "('a, 'b) jsmap \<Rightarrow> ('a, 'b) jsmap" where
  "Map_clear m = []"

definition Map_size :: "('a, 'b) jsmap \<Rightarrow> nat" where
  "Map_size m = length m"

definition Map_keys :: "('a, 'b) jsmap \<Rightarrow> 'a list" where
  "Map_keys m = map fst m"

definition Map_entries :: "('a, 'b) jsmap \<Rightarrow> ('a \<times> 'b) list" where
  "Map_entries m = m"

text \<open>\<open>new Map(iterable)\<close>: the entries of the iterable are \<open>set\<close> one by one into a new Map.\<close>

fun Map_fill :: "('a, 'b) jsmap \<Rightarrow> ('a \<times> 'b) list \<Rightarrow> ('a, 'b) jsmap" where
  "Map_fill m [] = m"
| "Map_fill m (p # ps) = Map_fill (Map_set m (fst p) (snd p)) ps"

definition Map_of_iterable :: "('a \<times> 'b) list \<Rightarrow> ('a, 'b) jsmap" where
  "Map_of_iterable ps = Map_fill Map_new ps"


section \<open>Errors\<close>

text \<open>
  What a method can throw. The two lookup errors hold their message and, as \<open>cause\<close>, the
  key or value; the two conflict errors hold their message only. Every constructor builds
  the message with a template literal, \<open>`Key conflict: ${key}`\<close>, which converts the key or
  value with ToString. ToString throws a \<open>TypeError\<close> for a Symbol and for an object that has
  no conversion to a primitive; the \<open>new\<close> expression then throws that \<open>TypeError\<close> and no
  BiMap error is built. \<open>TypeError\<close> is no subclass of \<open>BiMapError\<close>; it is in the datatype
  because the methods can throw it.

  The key type and the value type are not constrained, so their ToString is a parameter
  of each method that builds an error: a function giving \<open>Some\<close> string, or \<open>None\<close> where
  the conversion throws. A \<open>toString\<close> method of the caller's own that throws something
  else, or that writes to the container, is not covered.
\<close>

datatype ('k, 'v) BiMapError =
    BiMapNoSuchKeyError string 'k
  | BiMapNoSuchValueError string 'v
  | BiMapKeyConflictError string
  | BiMapValueConflictError string
  | TypeError

text \<open>The value thrown by \<open>throw new E(x)\<close>, for each of the four classes \<open>E\<close>.\<close>

definition new_BiMapNoSuchKeyError :: "('k \<Rightarrow> string option) \<Rightarrow> 'k \<Rightarrow> ('k, 'v) BiMapError" where
  "new_BiMapNoSuchKeyError kstr cause =
     (case kstr cause of
        None \<Rightarrow> TypeError
      | Some s \<Rightarrow> BiMapNoSuchKeyError (''No such key: '' @ s) cause)"

definition new_BiMapNoSuchValueError :: "('v \<Rightarrow> string option) \<Rightarrow> 'v \<Rightarrow> ('k, 'v) BiMapError" where
  "new_BiMapNoSuchValueError vstr cause =
     (case vstr cause of
        None \<Rightarrow> TypeError
      | Some s \<Rightarrow> BiMapNoSuchValueError (''No such value: '' @ s) cause)"

definition new_BiMapKeyConflictError :: "('k \<Rightarrow> string option) \<Rightarrow> 'k \<Rightarrow> ('k, 'v) BiMapError" where
  "new_BiMapKeyConflictError kstr key =
     (case kstr key of
        None \<Rightarrow> TypeError
      | Some s \<Rightarrow> BiMapKeyConflictError (''Key conflict: '' @ s))"

definition new_BiMapValueConflictError :: "('v \<Rightarrow> string option) \<Rightarrow> 'v \<Rightarrow> ('k, 'v) BiMapError" where
  "new_BiMapValueConflictError vstr val =
     (case vstr val of
        None \<Rightarrow> TypeError
      | Some s \<Rightarrow> BiMapValueConflictError (''Value conflict: '' @ s))"

text \<open>
  ToString for the key and value types of the examples. A string converts to itself. A
  number always converts; its digits are left open (\<open>render\<close>). A property key is a
  string or a Symbol, given by its description, and the Symbol does not convert.
\<close>

definition String_toString :: "string \<Rightarrow> string option" where
  "String_toString s = Some s"

definition Number_toString :: "(int \<Rightarrow> string) \<Rightarrow> int \<Rightarrow> string option" where
  "Number_toString render n = Some (render n)"

datatype PropertyKey = StringKey string | SymbolKey string

fun PropertyKey_toString :: "PropertyKey \<Rightarrow> string option" where
  "PropertyKey_toString (StringKey s) = Some s"
| "PropertyKey_toString (SymbolKey description) = None"


section \<open>The BiMap class\<close>

text \<open>
  The state of one container is the content of its two tables. A method takes the state
  of \<open>this\<close> first and returns the state afterwards, beside its result when it has one.
  A method that can throw returns \<open>Inl\<close> the error or \<open>Inr\<close> the result, together with
  the state in which the exception leaves the container.

  Four names of the source are taken in Isabelle: the getter \<open>size\<close> is \<open>size_of\<close>, \<open>set\<close> is
  \<open>set_pair\<close>, \<open>values\<close> is \<open>values_of\<close> and the static \<open>from\<close> is \<open>from_pairs\<close>.
\<close>

record ('k, 'v) BiMap =
  key2value :: "('k, 'v) jsmap"
  value2key :: "('v, 'k) jsmap"

definition BiMap_new :: "('k, 'v) BiMap" where
  "BiMap_new = \<lparr>key2value = Map_new, value2key = Map_new\<rparr>"

definition size_of :: "('k, 'v) BiMap \<Rightarrow> nat" where
  "size_of b = Map_size (key2value b)"

definition clear :: "('k, 'v) BiMap \<Rightarrow> ('k, 'v) BiMap" where
  "clear b =
     (let b1 = b\<lparr>key2value := Map_clear (key2value b)\<rparr>;
          b2 = b1\<lparr>value2key := Map_clear (value2key b1)\<rparr>
      in b2)"

definition hasKey :: "('k, 'v) BiMap \<Rightarrow> 'k \<Rightarrow> bool" where
  "hasKey b k = Map_has (key2value b) k"

definition hasValue :: "('k, 'v) BiMap \<Rightarrow> 'v \<Rightarrow> bool" where
  "hasValue b v = Map_has (value2key b) v"

definition assertHasKey ::
  "('k \<Rightarrow> string option) \<Rightarrow> ('k, 'v) BiMap \<Rightarrow> 'k \<Rightarrow> ('k, 'v) BiMapError + unit" where
  "assertHasKey kstr b k =
     (if \<not> hasKey b k then Inl (new_BiMapNoSuchKeyError kstr k) else Inr ())"

definition assertHasValue ::
  "('v \<Rightarrow> string option) \<Rightarrow> ('k, 'v) BiMap \<Rightarrow> 'v \<Rightarrow> ('k, 'v) BiMapError + unit" where
  "assertHasValue vstr b v =
     (if \<not> hasValue b v then Inl (new_BiMapNoSuchValueError vstr v) else Inr ())"

text \<open>
  \<open>deleteKey\<close> looks the value up and deletes it from the inverse table, then deletes the
  key from the forward table. The lookup stands under the check \<open>hasKey\<close>, so it finds
  an entry (lemma \<open>Map_has_get\<close>); the \<open>None\<close> branch is never taken.
\<close>

definition deleteKey :: "('k, 'v) BiMap \<Rightarrow> 'k \<Rightarrow> bool \<times> ('k, 'v) BiMap" where
  "deleteKey b k =
     (if hasKey b k then
        (let b1 = (case Map_get (key2value b) k of
                     Some v \<Rightarrow> b\<lparr>value2key := Map_delete (value2key b) v\<rparr>
                   | None \<Rightarrow> b);
             b2 = b1\<lparr>key2value := Map_delete (key2value b1) k\<rparr>
         in (True, b2))
      else (False, b))"

definition deleteValue :: "('k, 'v) BiMap \<Rightarrow> 'v \<Rightarrow> bool \<times> ('k, 'v) BiMap" where
  "deleteValue b v =
     (if hasValue b v then
        (let b1 = (case Map_get (value2key b) v of
                     Some k \<Rightarrow> b\<lparr>key2value := Map_delete (key2value b) k\<rparr>
                   | None \<Rightarrow> b);
             b2 = b1\<lparr>value2key := Map_delete (value2key b1) v\<rparr>
         in (True, b2))
      else (False, b))"

text \<open>The counting loops of \<open>deleteKeys\<close> and \<open>deleteValues\<close>, with the counter \<open>num\<close>.\<close>

fun deleteKeys_loop :: "('k, 'v) BiMap \<Rightarrow> 'k list \<Rightarrow> nat \<Rightarrow> nat \<times> ('k, 'v) BiMap" where
  "deleteKeys_loop b [] num = (num, b)"
| "deleteKeys_loop b (k # ks) num =
     (case deleteKey b k of
        (r, b') \<Rightarrow> deleteKeys_loop b' ks (if r then num + 1 else num))"

definition deleteKeys :: "('k, 'v) BiMap \<Rightarrow> 'k list \<Rightarrow> nat \<times> ('k, 'v) BiMap" where
  "deleteKeys b ks = deleteKeys_loop b ks 0"

fun deleteValues_loop :: "('k, 'v) BiMap \<Rightarrow> 'v list \<Rightarrow> nat \<Rightarrow> nat \<times> ('k, 'v) BiMap" where
  "deleteValues_loop b [] num = (num, b)"
| "deleteValues_loop b (v # vs) num =
     (case deleteValue b v of
        (r, b') \<Rightarrow> deleteValues_loop b' vs (if r then num + 1 else num))"

definition deleteValues :: "('k, 'v) BiMap \<Rightarrow> 'v list \<Rightarrow> nat \<times> ('k, 'v) BiMap" where
  "deleteValues b vs = deleteValues_loop b vs 0"

definition getValue :: "('k, 'v) BiMap \<Rightarrow> 'k \<Rightarrow> 'v option" where
  "getValue b k = Map_get (key2value b) k"

definition getKey :: "('k, 'v) BiMap \<Rightarrow> 'v \<Rightarrow> 'k option" where
  "getKey b v = Map_get (value2key b) v"

text \<open>The iterators, as the sequences they produce. \<open>values\<close> walks the inverse table.\<close>

definition keys :: "('k, 'v) BiMap \<Rightarrow> 'k list" where
  "keys b = Map_keys (key2value b)"

definition values_of :: "('k, 'v) BiMap \<Rightarrow> 'v list" where
  "values_of b = Map_keys (value2key b)"

definition entries :: "('k, 'v) BiMap \<Rightarrow> ('k \<times> 'v) list" where
  "entries b = Map_entries (key2value b)"

text \<open>\<open>clone\<close>: the state of the new container, whose tables are new Maps filled from the old.\<close>

definition clone :: "('k, 'v) BiMap \<Rightarrow> ('k, 'v) BiMap" where
  "clone b =
     \<lparr>key2value = Map_of_iterable (Map_entries (key2value b)),
      value2key = Map_of_iterable (Map_entries (value2key b))\<rparr>"

definition set_pair :: "('k, 'v) BiMap \<Rightarrow> 'k \<Rightarrow> 'v \<Rightarrow> ('k, 'v) BiMap" where
  "set_pair b k v =
     (let b1 = (if hasKey b k then snd (deleteKey b k) else b);
          b2 = (if hasValue b1 v then snd (deleteValue b1 v) else b1);
          b3 = b2\<lparr>key2value := Map_set (key2value b2) k v\<rparr>;
          b4 = b3\<lparr>value2key := Map_set (value2key b3) v k\<rparr>
      in b4)"

text \<open>
  \<open>add\<close> throws what the \<open>new\<close> expression of the branch taken throws: the conflict error,
  or the \<open>TypeError\<close> of building its message. Both throws come before the two writes.
\<close>

definition add ::
  "('k \<Rightarrow> string option) \<Rightarrow> ('v \<Rightarrow> string option) \<Rightarrow>
   ('k, 'v) BiMap \<Rightarrow> 'k \<Rightarrow> 'v \<Rightarrow> (('k, 'v) BiMapError + unit) \<times> ('k, 'v) BiMap" where
  "add kstr vstr b k v =
     (if hasKey b k then (Inl (new_BiMapKeyConflictError kstr k), b)
      else if hasValue b v then (Inl (new_BiMapValueConflictError vstr v), b)
      else
        (let b1 = b\<lparr>key2value := Map_set (key2value b) k v\<rparr>;
             b2 = b1\<lparr>value2key := Map_set (value2key b1) v k\<rparr>
         in (Inr (), b2)))"

text \<open>
  The four shapes \<open>setAll\<close>, \<open>addAll\<close> and \<open>from\<close> accept, in the order the source tests
  them: another BiMap, a Map, an array of pairs, a plain object. Each is walked in its
  own iteration order: a BiMap by \<open>forEach\<close> over its forward table, a Map by
  \<open>entries()\<close>, an array by index, an object by \<open>Object.entries\<close> (given here as the
  list that call returns). A BiMap argument is another object than the receiver: the
  loop walks the argument's forward table while it writes the receiver's tables.
\<close>

datatype ('k, 'v) pairs =
    OfBiMap "('k, 'v) BiMap"
  | OfMap "('k, 'v) jsmap"
  | OfArray "('k \<times> 'v) list"
  | OfRecord "('k \<times> 'v) list"

fun setAll_loop :: "('k, 'v) BiMap \<Rightarrow> ('k \<times> 'v) list \<Rightarrow> ('k, 'v) BiMap" where
  "setAll_loop b [] = b"
| "setAll_loop b (p # ps) = setAll_loop (set_pair b (fst p) (snd p)) ps"

fun setAll :: "('k, 'v) BiMap \<Rightarrow> ('k, 'v) pairs \<Rightarrow> ('k, 'v) BiMap" where
  "setAll b (OfBiMap src) = setAll_loop b (Map_entries (key2value src))"
| "setAll b (OfMap m) = setAll_loop b (Map_entries m)"
| "setAll b (OfArray arr) = setAll_loop b arr"
| "setAll b (OfRecord arr) = setAll_loop b arr"

text \<open>In \<open>addAll\<close> an exception of \<open>add\<close> leaves the loop; the state is the one reached.\<close>

fun addAll_loop ::
  "('k \<Rightarrow> string option) \<Rightarrow> ('v \<Rightarrow> string option) \<Rightarrow>
   ('k, 'v) BiMap \<Rightarrow> ('k \<times> 'v) list \<Rightarrow> (('k, 'v) BiMapError + unit) \<times> ('k, 'v) BiMap" where
  "addAll_loop kstr vstr b [] = (Inr (), b)"
| "addAll_loop kstr vstr b (p # ps) =
     (case add kstr vstr b (fst p) (snd p) of
        (Inl e, b') \<Rightarrow> (Inl e, b')
      | (Inr u, b') \<Rightarrow> addAll_loop kstr vstr b' ps)"

fun addAll ::
  "('k \<Rightarrow> string option) \<Rightarrow> ('v \<Rightarrow> string option) \<Rightarrow>
   ('k, 'v) BiMap \<Rightarrow> ('k, 'v) pairs \<Rightarrow> (('k, 'v) BiMapError + unit) \<times> ('k, 'v) BiMap" where
  "addAll kstr vstr b (OfBiMap src) = addAll_loop kstr vstr b (Map_entries (key2value src))"
| "addAll kstr vstr b (OfMap m) = addAll_loop kstr vstr b (Map_entries m)"
| "addAll kstr vstr b (OfArray arr) = addAll_loop kstr vstr b arr"
| "addAll kstr vstr b (OfRecord arr) = addAll_loop kstr vstr b arr"

text \<open>
  The sequence of pairs the loops of \<open>setAll\<close> and \<open>addAll\<close> walk for each shape of
  argument: the source's iteration order.
\<close>

definition iteration_of :: "('k, 'v) pairs \<Rightarrow> ('k \<times> 'v) list" where
  "iteration_of src =
     (case src of
        OfBiMap p \<Rightarrow> Map_entries (key2value p)
      | OfMap m \<Rightarrow> Map_entries m
      | OfArray arr \<Rightarrow> arr
      | OfRecord arr \<Rightarrow> arr)"

text \<open>\<open>BiMap.from\<close> returns the new container, or throws what \<open>addAll\<close> throws.\<close>

definition from_pairs ::
  "('k \<Rightarrow> string option) \<Rightarrow> ('v \<Rightarrow> string option) \<Rightarrow>
   ('k, 'v) pairs \<Rightarrow> ('k, 'v) BiMapError + ('k, 'v) BiMap" where
  "from_pairs kstr vstr src =
     (case addAll kstr vstr BiMap_new src of
        (Inl e, b) \<Rightarrow> Inl e
      | (Inr u, b) \<Rightarrow> Inr b)"


section \<open>Containers as objects in a store\<close>












section \<open>Reachable states\<close>

text \<open>
  The states a container can be in: the empty one, and every state a mutating method
  leaves behind, also when the method threw, whatever the ToString of keys and values.
\<close>

inductive reachable :: "('k, 'v) BiMap \<Rightarrow> bool" where
  r_new: "reachable BiMap_new"
| r_set: "reachable b \<Longrightarrow> reachable (set_pair b k v)"
| r_add: "reachable b \<Longrightarrow> reachable (snd (add kstr vstr b k v))"
| r_setAll: "reachable b \<Longrightarrow> reachable (setAll b src)"
| r_addAll: "reachable b \<Longrightarrow> reachable (snd (addAll kstr vstr b src))"
| r_deleteKey: "reachable b \<Longrightarrow> reachable (snd (deleteKey b k))"
| r_deleteValue: "reachable b \<Longrightarrow> reachable (snd (deleteValue b v))"
| r_deleteKeys: "reachable b \<Longrightarrow> reachable (snd (deleteKeys b ks))"
| r_deleteValues: "reachable b \<Longrightarrow> reachable (snd (deleteValues b vs))"
| r_clear: "reachable b \<Longrightarrow> reachable (clear b)"
| r_clone: "reachable b \<Longrightarrow> reachable (clone b)"

text \<open>
  The invariant behind every claim: keys are distinct, values are distinct, and the
  inverse table is the forward table with each pair swapped, in the same order.
\<close>

definition mirrored :: "('k, 'v) BiMap \<Rightarrow> bool" where
  "mirrored b \<longleftrightarrow>
     distinct (map fst (key2value b)) \<and> distinct (map snd (key2value b)) \<and>
     value2key b = map prod.swap (key2value b)"


section \<open>The Map primitives and the invariant\<close>

lemma Map_has_iff: "Map_has m k \<longleftrightarrow> k \<in> fst ` set m"
  by (induction m) auto

lemma Map_has_get: "Map_has m k \<longleftrightarrow> Map_get m k \<noteq> None"
  by (induction m) auto

lemma Map_get_Some_mem: "Map_get m k = Some v \<Longrightarrow> (k, v) \<in> set m"
  by (induction m) (auto split: if_splits)

lemma Map_get_distinct: "distinct (map fst m) \<Longrightarrow> (k, v) \<in> set m \<Longrightarrow> Map_get m k = Some v"
  by (induction m) (auto simp: rev_image_eqI)

lemma Map_get_iff: "distinct (map fst m) \<Longrightarrow> Map_get m k = Some v \<longleftrightarrow> (k, v) \<in> set m"
  using Map_get_Some_mem Map_get_distinct by fast

lemma Map_delete_filter: "Map_delete m k = filter (\<lambda>p. fst p \<noteq> k) m"
  by (induction m) auto

lemma Map_set_fresh: "k \<notin> fst ` set m \<Longrightarrow> Map_set m k v = m @ [(k, v)]"
  by (induction m) auto

lemma Map_fill_distinct: "distinct (map fst (m @ ps)) \<Longrightarrow> Map_fill m ps = m @ ps"
proof (induction ps arbitrary: m)
  case Nil
  then show ?case by simp
next
  case (Cons p ps)
  have fresh: "fst p \<notin> fst ` set m" using Cons.prems by auto
  have step: "Map_set m (fst p) (snd p) = m @ [p]"
    using Map_set_fresh [OF fresh, of "snd p"] by simp
  have "distinct (map fst ((m @ [p]) @ ps))" using Cons.prems by simp
  then have "Map_fill (m @ [p]) ps = (m @ [p]) @ ps" by (rule Cons.IH)
  then show ?case using step by simp
qed

lemma Map_of_iterable_distinct: "distinct (map fst ps) \<Longrightarrow> Map_of_iterable ps = ps"
  using Map_fill_distinct [of "[]" ps] by (simp add: Map_of_iterable_def Map_new_def)

lemma swap_filter_key:
  assumes "distinct (map fst m)" "distinct (map snd m)" "(k, v) \<in> set m"
  shows "filter (\<lambda>p. snd p \<noteq> v) m = filter (\<lambda>p. fst p \<noteq> k) m"
proof (rule filter_cong [OF refl])
  fix p assume p: "p \<in> set m"
  have a: "fst p = k \<Longrightarrow> snd p = v"
    using assms(1,3) p eq_key_imp_eq_value [of m k "snd p" v] by (cases p) auto
  have "distinct (map fst (map prod.swap m))" using assms(2) by (simp add: comp_def)
  then have b: "snd p = v \<Longrightarrow> fst p = k"
    using assms(3) p eq_key_imp_eq_value [of "map prod.swap m" v "fst p" k] by (cases p) force
  show "(snd p \<noteq> v) = (fst p \<noteq> k)" using a b by blast
qed

lemma mirroredI:
  "distinct (map fst m) \<Longrightarrow> distinct (map snd m) \<Longrightarrow>
   mirrored \<lparr>key2value = m, value2key = map prod.swap m\<rparr>"
  by (simp add: mirrored_def)

lemma mirrored_eq: "mirrored b \<Longrightarrow> b = \<lparr>key2value = key2value b, value2key = map prod.swap (key2value b)\<rparr>"
  by (simp add: mirrored_def)

lemma mirrored_hasKey: "hasKey b k \<longleftrightarrow> k \<in> fst ` set (key2value b)"
  by (simp add: hasKey_def Map_has_iff)

lemma mirrored_hasValue: "mirrored b \<Longrightarrow> hasValue b v \<longleftrightarrow> v \<in> snd ` set (key2value b)"
  by (force simp: hasValue_def Map_has_iff mirrored_def)

lemma mirrored_getValue: "mirrored b \<Longrightarrow> getValue b k = Some v \<longleftrightarrow> (k, v) \<in> set (key2value b)"
  by (simp add: getValue_def mirrored_def Map_get_iff)

lemma mirrored_getKey: "mirrored b \<Longrightarrow> getKey b v = Some k \<longleftrightarrow> (k, v) \<in> set (key2value b)"
proof -
  assume m: "mirrored b"
  then have d: "distinct (map fst (value2key b))" by (simp add: mirrored_def comp_def)
  have "(v, k) \<in> set (value2key b) \<longleftrightarrow> (k, v) \<in> set (key2value b)"
    using m by (force simp: mirrored_def)
  then show ?thesis using d by (simp add: getKey_def Map_get_iff)
qed

lemma deleteKey_mirrored:
  assumes "mirrored b"
  shows "deleteKey b k =
     (k \<in> fst ` set (key2value b),
      \<lparr>key2value = filter (\<lambda>p. fst p \<noteq> k) (key2value b),
       value2key = map prod.swap (filter (\<lambda>p. fst p \<noteq> k) (key2value b))\<rparr>)"
proof (cases "hasKey b k")
  case False
  then have "k \<notin> fst ` set (key2value b)" by (simp add: mirrored_hasKey)
  then have "filter (\<lambda>p. fst p \<noteq> k) (key2value b) = key2value b"
    by (auto simp: filter_id_conv)
  then show ?thesis using False assms mirrored_eq [OF assms]
    by (simp add: deleteKey_def mirrored_hasKey)
next
  case True
  then obtain v where v: "Map_get (key2value b) k = Some v"
    by (auto simp: hasKey_def Map_has_get)
  then have mem: "(k, v) \<in> set (key2value b)" by (rule Map_get_Some_mem)
  have "filter (\<lambda>q. fst q \<noteq> v) (map prod.swap (key2value b))
        = map prod.swap (filter (\<lambda>p. snd p \<noteq> v) (key2value b))"
    by (simp add: filter_map comp_def)
  also have "\<dots> = map prod.swap (filter (\<lambda>p. fst p \<noteq> k) (key2value b))"
    using swap_filter_key [OF _ _ mem] assms by (simp add: mirrored_def)
  finally show ?thesis using True v assms
    by (simp add: deleteKey_def mirrored_hasKey Map_delete_filter mirrored_def)
qed

lemma deleteValue_mirrored:
  assumes "mirrored b"
  shows "deleteValue b v =
     (v \<in> snd ` set (key2value b),
      \<lparr>key2value = filter (\<lambda>p. snd p \<noteq> v) (key2value b),
       value2key = map prod.swap (filter (\<lambda>p. snd p \<noteq> v) (key2value b))\<rparr>)"
proof (cases "hasValue b v")
  case False
  then have "v \<notin> snd ` set (key2value b)" using assms by (simp add: mirrored_hasValue)
  then have "filter (\<lambda>p. snd p \<noteq> v) (key2value b) = key2value b"
    by (auto simp: filter_id_conv)
  then show ?thesis using False assms mirrored_eq [OF assms]
    by (simp add: deleteValue_def mirrored_hasValue)
next
  case True
  then obtain k where k: "Map_get (value2key b) v = Some k"
    by (auto simp: hasValue_def Map_has_get)
  then have "(v, k) \<in> set (value2key b)" by (rule Map_get_Some_mem)
  then have mem: "(k, v) \<in> set (key2value b)" using assms by (force simp: mirrored_def)
  have f: "filter (\<lambda>p. fst p \<noteq> k) (key2value b) = filter (\<lambda>p. snd p \<noteq> v) (key2value b)"
    using swap_filter_key [OF _ _ mem] assms by (simp add: mirrored_def)
  have "filter (\<lambda>q. fst q \<noteq> v) (map prod.swap (key2value b))
        = map prod.swap (filter (\<lambda>p. snd p \<noteq> v) (key2value b))"
    by (simp add: filter_map comp_def)
  then show ?thesis using True k assms f
    by (simp add: deleteValue_def mirrored_hasValue Map_delete_filter mirrored_def)
qed


lemma deleteKey_guard: "(if hasKey b k then snd (deleteKey b k) else b) = snd (deleteKey b k)"
  by (simp add: deleteKey_def)

lemma deleteValue_guard: "(if hasValue b v then snd (deleteValue b v) else b) = snd (deleteValue b v)"
  by (simp add: deleteValue_def)

lemma mirrored_filter:
  "mirrored b \<Longrightarrow>
   mirrored \<lparr>key2value = filter P (key2value b), value2key = map prod.swap (filter P (key2value b))\<rparr>"
  by (simp add: mirrored_def distinct_map_filter)

lemma mirrored_deleteKey: "mirrored b \<Longrightarrow> mirrored (snd (deleteKey b k))"
  by (simp add: deleteKey_mirrored mirrored_filter)

lemma mirrored_deleteValue: "mirrored b \<Longrightarrow> mirrored (snd (deleteValue b v))"
  by (simp add: deleteValue_mirrored mirrored_filter)

lemma insert_fresh:
  assumes "k \<notin> fst ` set m" "v \<notin> snd ` set m"
  shows "Map_set m k v = m @ [(k, v)]"
    and "Map_set (map prod.swap m) v k = map prod.swap (m @ [(k, v)])"
proof -
  show "Map_set m k v = m @ [(k, v)]" using assms(1) by (rule Map_set_fresh)
  have "v \<notin> fst ` set (map prod.swap m)" using assms(2) by force
  then show "Map_set (map prod.swap m) v k = map prod.swap (m @ [(k, v)])"
    by (simp add: Map_set_fresh)
qed

lemma set_pair_mirrored:
  assumes "mirrored b"
  shows "set_pair b k v =
     \<lparr>key2value = filter (\<lambda>p. fst p \<noteq> k \<and> snd p \<noteq> v) (key2value b) @ [(k, v)],
      value2key = map prod.swap (filter (\<lambda>p. fst p \<noteq> k \<and> snd p \<noteq> v) (key2value b) @ [(k, v)])\<rparr>"
proof -
  let ?m = "filter (\<lambda>p. fst p \<noteq> k \<and> snd p \<noteq> v) (key2value b)"
  have m1: "mirrored (snd (deleteKey b k))" using assms by (rule mirrored_deleteKey)
  have k1: "key2value (snd (deleteKey b k)) = filter (\<lambda>p. fst p \<noteq> k) (key2value b)"
    by (simp add: deleteKey_mirrored [OF assms])
  have b2: "snd (deleteValue (snd (deleteKey b k)) v) =
            \<lparr>key2value = ?m, value2key = map prod.swap ?m\<rparr>"
    by (simp add: deleteValue_mirrored [OF m1] k1)
  have fk: "k \<notin> fst ` set ?m" and fv: "v \<notin> snd ` set ?m" by auto
  show ?thesis
    unfolding set_pair_def deleteKey_guard deleteValue_guard Let_def b2
    using insert_fresh [OF fk fv] by simp
qed

lemma mirrored_set_pair: "mirrored b \<Longrightarrow> mirrored (set_pair b k v)"
proof -
  assume m: "mirrored b"
  let ?m = "filter (\<lambda>p. fst p \<noteq> k \<and> snd p \<noteq> v) (key2value b)"
  have "distinct (map fst ?m)" "distinct (map snd ?m)"
    using m by (simp_all add: mirrored_def distinct_map_filter)
  moreover have "k \<notin> fst ` set ?m" "v \<notin> snd ` set ?m" by auto
  ultimately have "distinct (map fst (?m @ [(k, v)]))" "distinct (map snd (?m @ [(k, v)]))"
    by simp_all
  then show ?thesis unfolding set_pair_mirrored [OF m] by (rule mirroredI)
qed

lemma add_mirrored:
  assumes "mirrored b"
  shows "add kstr vstr b k v =
     (if k \<in> fst ` set (key2value b) then (Inl (new_BiMapKeyConflictError kstr k), b)
      else if v \<in> snd ` set (key2value b) then (Inl (new_BiMapValueConflictError vstr v), b)
      else (Inr (), \<lparr>key2value = key2value b @ [(k, v)],
                     value2key = map prod.swap (key2value b @ [(k, v)])\<rparr>))"
proof -
  have v2k: "value2key b = map prod.swap (key2value b)" using assms by (simp add: mirrored_def)
  show ?thesis
    using insert_fresh [of k "key2value b" v]
    by (simp add: add_def mirrored_hasKey mirrored_hasValue [OF assms] Let_def v2k)
qed

lemma mirrored_add: "mirrored b \<Longrightarrow> mirrored (snd (add kstr vstr b k v))"
proof -
  assume m: "mirrored b"
  have "k \<notin> fst ` set (key2value b) \<Longrightarrow> v \<notin> snd ` set (key2value b) \<Longrightarrow>
        mirrored \<lparr>key2value = key2value b @ [(k, v)],
                  value2key = map prod.swap (key2value b @ [(k, v)])\<rparr>"
    using m by (intro mirroredI) (simp_all add: mirrored_def)
  then show ?thesis using m by (simp add: add_mirrored [OF m])
qed

lemma mirrored_new: "mirrored BiMap_new"
  by (simp add: mirrored_def BiMap_new_def Map_new_def)

lemma mirrored_clear: "mirrored (clear b)"
  by (simp add: mirrored_def clear_def Map_clear_def)

lemma clone_mirrored: "mirrored b \<Longrightarrow> clone b = b"
  by (simp add: mirrored_def clone_def Map_entries_def Map_of_iterable_distinct comp_def)

lemma mirrored_setAll_loop: "mirrored b \<Longrightarrow> mirrored (setAll_loop b ps)"
  by (induction ps arbitrary: b) (simp_all add: mirrored_set_pair)

lemma mirrored_setAll: "mirrored b \<Longrightarrow> mirrored (setAll b src)"
  by (cases src) (simp_all add: mirrored_setAll_loop)

lemma mirrored_addAll_loop: "mirrored b \<Longrightarrow> mirrored (snd (addAll_loop kstr vstr b ps))"
proof (induction ps arbitrary: b)
  case Nil
  then show ?case by simp
next
  case (Cons p ps)
  have m: "mirrored (snd (add kstr vstr b (fst p) (snd p)))" using Cons.prems by (rule mirrored_add)
  show ?case
  proof (cases "add kstr vstr b (fst p) (snd p)")
    case (Pair r b')
    then show ?thesis using m Cons.IH [of b'] by (cases r) simp_all
  qed
qed

lemma mirrored_addAll: "mirrored b \<Longrightarrow> mirrored (snd (addAll kstr vstr b src))"
  by (cases src) (simp_all add: mirrored_addAll_loop)

lemma mirrored_deleteKeys_loop: "mirrored b \<Longrightarrow> mirrored (snd (deleteKeys_loop b ks n))"
proof (induction ks arbitrary: b n)
  case Nil
  then show ?case by simp
next
  case (Cons k ks)
  have m: "mirrored (snd (deleteKey b k))" using Cons.prems by (rule mirrored_deleteKey)
  show ?case
  proof (cases "deleteKey b k")
    case (Pair r b')
    then show ?thesis using m Cons.IH [of b'] by simp
  qed
qed

lemma mirrored_deleteValues_loop: "mirrored b \<Longrightarrow> mirrored (snd (deleteValues_loop b vs n))"
proof (induction vs arbitrary: b n)
  case Nil
  then show ?case by simp
next
  case (Cons v vs)
  have m: "mirrored (snd (deleteValue b v))" using Cons.prems by (rule mirrored_deleteValue)
  show ?case
  proof (cases "deleteValue b v")
    case (Pair r b')
    then show ?thesis using m Cons.IH [of b'] by simp
  qed
qed

lemma reachable_mirrored: "reachable b \<Longrightarrow> mirrored b"
proof (induction rule: reachable.induct)
  case r_new
  show ?case by (rule mirrored_new)
next
  case (r_set b k v)
  then show ?case by (simp add: mirrored_set_pair)
next
  case (r_add b kstr vstr k v)
  then show ?case by (simp add: mirrored_add)
next
  case (r_setAll b src)
  then show ?case by (simp add: mirrored_setAll)
next
  case (r_addAll b kstr vstr src)
  then show ?case by (simp add: mirrored_addAll)
next
  case (r_deleteKey b k)
  then show ?case by (simp add: mirrored_deleteKey)
next
  case (r_deleteValue b v)
  then show ?case by (simp add: mirrored_deleteValue)
next
  case (r_deleteKeys b ks)
  then show ?case by (simp add: deleteKeys_def mirrored_deleteKeys_loop)
next
  case (r_deleteValues b vs)
  then show ?case by (simp add: deleteValues_def mirrored_deleteValues_loop)
next
  case (r_clear b)
  show ?case by (rule mirrored_clear)
next
  case (r_clone b)
  then show ?case by (simp add: clone_mirrored)
qed


section \<open>The claims\<close>

subsection \<open>C1: the two tables are exact inverses\<close>

lemma ex_state:
  "set_pair (set_pair (set_pair BiMap_new ''a'' (1::int)) ''b'' 2) ''a'' 2
   = \<lparr>key2value = [(''a'', 2)], value2key = [(2, ''a'')]\<rparr>"
  by (simp add: set_pair_def BiMap_new_def Map_new_def hasKey_def hasValue_def deleteKey_def
      deleteValue_def Let_def)

text \<open>
  C1. In every reachable state (every state produced from the empty container by any
  sequence of set, add, setAll, addAll, deleteKey, deleteValue, deleteKeys, deleteValues,
  clear and clone) the forward and the inverse table are exact inverses: the forward table
  maps \<open>k\<close> to \<open>v\<close> if and only if the inverse table maps \<open>v\<close> to \<open>k\<close>. Hence for every
  key \<open>k\<close> with \<open>hasKey(k)\<close>, \<open>getKey(getValue(k)) = k\<close>, and for every value \<open>v\<close> with
  \<open>hasValue(v)\<close>, \<open>getValue(getKey(v)) = v\<close>.
\<close>

theorem tables_exact_inverses:
  assumes "reachable b"
  shows "(\<forall>k v. Map_get (key2value b) k = Some v \<longleftrightarrow> Map_get (value2key b) v = Some k) \<and>
         (\<forall>k. hasKey b k \<longrightarrow> (\<exists>v. getValue b k = Some v \<and> getKey b v = Some k)) \<and>
         (\<forall>v. hasValue b v \<longrightarrow> (\<exists>k. getKey b v = Some k \<and> getValue b k = Some v))"
proof -
  have m: "mirrored b" using assms by (rule reachable_mirrored)
  have inv: "\<And>k v. getValue b k = Some v \<longleftrightarrow> getKey b v = Some k"
    by (simp add: mirrored_getValue [OF m] mirrored_getKey [OF m])
  have fwd: "\<And>k. hasKey b k \<Longrightarrow> \<exists>v. getValue b k = Some v"
    by (auto simp: hasKey_def getValue_def Map_has_get)
  have bwd: "\<And>v. hasValue b v \<Longrightarrow> \<exists>k. getKey b v = Some k"
    by (auto simp: hasValue_def getKey_def Map_has_get)
  show ?thesis
  proof (intro conjI allI impI)
    fix k v
    show "Map_get (key2value b) k = Some v \<longleftrightarrow> Map_get (value2key b) v = Some k"
      using inv [of k v] by (simp add: getValue_def getKey_def)
  next
    fix k assume "hasKey b k"
    then obtain v where "getValue b k = Some v" using fwd by blast
    then show "\<exists>v. getValue b k = Some v \<and> getKey b v = Some k" using inv by blast
  next
    fix v assume "hasValue b v"
    then obtain k where "getKey b v = Some k" using bwd by blast
    then show "\<exists>k. getKey b v = Some k \<and> getValue b k = Some v" using inv by blast
  qed
qed

theorem tables_exact_inverses_witness:
  "reachable (set_pair (set_pair (set_pair BiMap_new ''a'' (1::int)) ''b'' 2) ''a'' 2) \<and>
   hasKey (set_pair (set_pair (set_pair BiMap_new ''a'' (1::int)) ''b'' 2) ''a'' 2) ''a'' \<and>
   (\<exists>v. getValue (set_pair (set_pair (set_pair BiMap_new ''a'' (1::int)) ''b'' 2) ''a'' 2) ''a'' = Some v \<and>
        getKey (set_pair (set_pair (set_pair BiMap_new ''a'' (1::int)) ''b'' 2) ''a'' 2) v = Some ''a'')"
proof -
  let ?b = "set_pair (set_pair (set_pair BiMap_new ''a'' (1::int)) ''b'' 2) ''a'' 2"
  have r: "reachable ?b" by (intro reachable.intros)
  have h: "hasKey ?b ''a''" by (simp add: ex_state hasKey_def)
  from tables_exact_inverses [OF r] h r show ?thesis by blast
qed


subsection \<open>C2: set evicts the colliding pairs, then inserts\<close>

lemma length_filter_distinct_le1:
  "distinct (map f xs) \<Longrightarrow> length (filter (\<lambda>p. f p = a) xs) \<le> 1"
proof (induction xs)
  case Nil
  then show ?case by simp
next
  case (Cons x xs)
  show ?case
  proof (cases "f x = a")
    case True
    then have "a \<notin> f ` set xs" using Cons.prems by auto
    then have "filter (\<lambda>p. f p = a) xs = []" by (auto simp: filter_empty_conv)
    then show ?thesis using True by simp
  next
    case False
    then show ?thesis using Cons by simp
  qed
qed

lemma length_filter_disj:
  "length (filter (\<lambda>p. P p \<or> Q p) xs) \<le> length (filter P xs) + length (filter Q xs)"
  by (induction xs) auto

lemma evicted_at_most_two:
  assumes "distinct (map fst m)" "distinct (map snd m)"
  shows "length m \<le> length (filter (\<lambda>p. fst p \<noteq> k \<and> snd p \<noteq> v) m) + 2"
proof -
  let ?P = "\<lambda>p. fst p \<noteq> k \<and> snd p \<noteq> v"
  have "length (filter (\<lambda>p. \<not> ?P p) m) \<le>
        length (filter (\<lambda>p. fst p = k) m) + length (filter (\<lambda>p. snd p = v) m)"
    using length_filter_disj [of "\<lambda>p. fst p = k" "\<lambda>p. snd p = v" m] by simp
  also have "\<dots> \<le> 1 + 1"
    using length_filter_distinct_le1 [OF assms(1), of k]
          length_filter_distinct_le1 [OF assms(2), of v] by (rule add_mono)
  finally have "length (filter (\<lambda>p. \<not> ?P p) m) \<le> 2" by simp
  then show ?thesis using sum_length_filter_compl [of ?P m] by linarith
qed

lemma from_a1_b2:
  "from_pairs kstr vstr (OfRecord [(''a'', 1::int), (''b'', 2)]) =
     Inr \<lparr>key2value = [(''a'', 1), (''b'', 2)], value2key = [(1, ''a''), (2, ''b'')]\<rparr>"
  by (simp add: from_pairs_def add_def BiMap_new_def Map_new_def hasKey_def hasValue_def Let_def)

lemma reachable_from_pairs: "from_pairs kstr vstr src = Inr b \<Longrightarrow> reachable b"
proof -
  assume a: "from_pairs kstr vstr src = Inr b"
  have "reachable (snd (addAll kstr vstr BiMap_new src))" by (intro reachable.intros)
  moreover have "snd (addAll kstr vstr BiMap_new src) = b"
    using a by (auto simp: from_pairs_def split: prod.splits sum.splits)
  ultimately show ?thesis by simp
qed

text \<open>
  C2. In every reachable state and for every pair \<open>(k, v)\<close>, \<open>set(k, v)\<close> removes the pair
  keyed \<open>k\<close> (if any) and the pair valued \<open>v\<close> (if any), then inserts \<open>(k, v)\<close> at the end of
  both tables. Afterwards exactly one pair has key \<open>k\<close>, exactly one pair has value \<open>v\<close>, and
  both are the pair \<open>(k, v)\<close>; the size changes by -1, 0 or +1. In particular, from
  \<open>{a:1, b:2}\<close>, \<open>set('a', 2)\<close> yields exactly \<open>{a:2}\<close>, and the size goes from 2 to 1.
\<close>

theorem set_evicts_then_inserts:
  assumes "reachable b"
  shows "entries (set_pair b k v) = filter (\<lambda>p. fst p \<noteq> k \<and> snd p \<noteq> v) (entries b) @ [(k, v)] \<and>
         value2key (set_pair b k v) = map prod.swap (entries (set_pair b k v)) \<and>
         filter (\<lambda>p. fst p = k) (entries (set_pair b k v)) = [(k, v)] \<and>
         filter (\<lambda>p. snd p = v) (entries (set_pair b k v)) = [(k, v)] \<and>
         getValue (set_pair b k v) k = Some v \<and> getKey (set_pair b k v) v = Some k \<and>
         int (size_of (set_pair b k v)) - int (size_of b) \<in> {-1, 0, 1} \<and>
         from_pairs kstr vstr (OfRecord [(''a'', 1::int), (''b'', 2)]) =
           Inr \<lparr>key2value = [(''a'', 1), (''b'', 2)], value2key = [(1, ''a''), (2, ''b'')]\<rparr> \<and>
         set_pair \<lparr>key2value = [(''a'', 1::int), (''b'', 2)], value2key = [(1, ''a''), (2, ''b'')]\<rparr> ''a'' 2 =
           \<lparr>key2value = [(''a'', 2)], value2key = [(2, ''a'')]\<rparr> \<and>
         size_of \<lparr>key2value = [(''a'', 1::int), (''b'', 2)], value2key = [(1, ''a''), (2, ''b'')]\<rparr> = 2 \<and>
         size_of \<lparr>key2value = [(''a'', 2::int)], value2key = [(2, ''a'')]\<rparr> = 1"
proof -
  have m: "mirrored b" using assms by (rule reachable_mirrored)
  let ?m = "filter (\<lambda>p. fst p \<noteq> k \<and> snd p \<noteq> v) (key2value b)"
  have st: "set_pair b k v = \<lparr>key2value = ?m @ [(k, v)], value2key = map prod.swap (?m @ [(k, v)])\<rparr>"
    using m by (rule set_pair_mirrored)
  have m': "mirrored (set_pair b k v)" using m by (rule mirrored_set_pair)
  have e: "entries (set_pair b k v) = ?m @ [(k, v)]"
    by (simp add: st entries_def Map_entries_def)
  have c1: "entries (set_pair b k v) = filter (\<lambda>p. fst p \<noteq> k \<and> snd p \<noteq> v) (entries b) @ [(k, v)]"
    using e by (simp add: entries_def Map_entries_def)
  have c2: "value2key (set_pair b k v) = map prod.swap (entries (set_pair b k v))"
    unfolding e by (simp add: st)
  have nk: "filter (\<lambda>p. fst p = k) ?m = []" by (auto simp: filter_empty_conv)
  have nv: "filter (\<lambda>p. snd p = v) ?m = []" by (auto simp: filter_empty_conv)
  have c3: "filter (\<lambda>p. fst p = k) (entries (set_pair b k v)) = [(k, v)]"
    unfolding e filter_append nk by simp
  have c4: "filter (\<lambda>p. snd p = v) (entries (set_pair b k v)) = [(k, v)]"
    unfolding e filter_append nv by simp
  have mem: "(k, v) \<in> set (key2value (set_pair b k v))" by (simp add: st)
  have c5: "getValue (set_pair b k v) k = Some v"
    using mem by (simp add: mirrored_getValue [OF m'])
  have c6: "getKey (set_pair b k v) v = Some k"
    using mem by (simp add: mirrored_getKey [OF m'])
  have lo: "length (key2value b) \<le> length ?m + 2"
    using m by (intro evicted_at_most_two) (simp_all add: mirrored_def)
  have hi: "length ?m \<le> length (key2value b)" by (rule length_filter_le)
  have sz: "size_of (set_pair b k v) = length ?m + 1"
    by (simp add: st size_of_def Map_size_def)
  have "int (length ?m + 1) - int (length (key2value b)) = -1 \<or>
        int (length ?m + 1) - int (length (key2value b)) = 0 \<or>
        int (length ?m + 1) - int (length (key2value b)) = 1"
    using lo hi by linarith
  then have c7: "int (size_of (set_pair b k v)) - int (size_of b) \<in> {-1, 0, 1}"
    unfolding sz by (simp add: size_of_def Map_size_def)
  have c9: "set_pair \<lparr>key2value = [(''a'', 1::int), (''b'', 2)], value2key = [(1, ''a''), (2, ''b'')]\<rparr> ''a'' 2 =
           \<lparr>key2value = [(''a'', 2)], value2key = [(2, ''a'')]\<rparr>"
    by (simp add: set_pair_def hasKey_def hasValue_def deleteKey_def deleteValue_def Let_def)
  have c10: "size_of \<lparr>key2value = [(''a'', 1::int), (''b'', 2)], value2key = [(1, ''a''), (2, ''b'')]\<rparr> = 2"
    by (simp add: size_of_def Map_size_def)
  have c11: "size_of \<lparr>key2value = [(''a'', 2::int)], value2key = [(2, ''a'')]\<rparr> = 1"
    by (simp add: size_of_def Map_size_def)
  show ?thesis using c1 c2 c3 c4 c5 c6 c7 from_a1_b2 c9 c10 c11 by blast
qed

theorem set_evicts_then_inserts_witness:
  "reachable \<lparr>key2value = [(''a'', 1::int), (''b'', 2)], value2key = [(1, ''a''), (2, ''b'')]\<rparr> \<and>
   entries (set_pair \<lparr>key2value = [(''a'', 1::int), (''b'', 2)], value2key = [(1, ''a''), (2, ''b'')]\<rparr> ''a'' 2)
     = [(''a'', 2)] \<and>
   int (size_of (set_pair \<lparr>key2value = [(''a'', 1::int), (''b'', 2)], value2key = [(1, ''a''), (2, ''b'')]\<rparr> ''a'' 2))
     - int (size_of \<lparr>key2value = [(''a'', 1::int), (''b'', 2)], value2key = [(1, ''a''), (2, ''b'')]\<rparr>) = -1"
proof -
  let ?b = "\<lparr>key2value = [(''a'', 1::int), (''b'', 2)], value2key = [(1, ''a''), (2, ''b'')]\<rparr>"
  have r: "reachable ?b" using from_a1_b2 by (rule reachable_from_pairs)
  have e: "entries ?b = [(''a'', 1), (''b'', 2)]" by (simp add: entries_def Map_entries_def)
  have s: "size_of ?b = 2" by (simp add: size_of_def Map_size_def)
  have "entries (set_pair ?b ''a'' 2) =
        filter (\<lambda>p. fst p \<noteq> ''a'' \<and> snd p \<noteq> 2) (entries ?b) @ [(''a'', 2)]"
    using set_evicts_then_inserts [OF r, of "''a''" 2] by (rule conjunct1)
  then have "entries (set_pair ?b ''a'' 2) = [(''a'', 2)]" unfolding e by simp
  then show ?thesis using r s by (simp add: entries_def Map_entries_def size_of_def Map_size_def)
qed


subsection \<open>C3: add checks the key first, then the value\<close>

lemma Map_get_append_fresh: "k \<notin> fst ` set m \<Longrightarrow> Map_get (m @ [(k, v)]) k = Some v"
  by (induction m) auto

lemma add_fresh:
  assumes "\<not> hasKey b k" "\<not> hasValue b v"
  shows "add kstr vstr b k v =
     (Inr (), \<lparr>key2value = key2value b @ [(k, v)], value2key = value2key b @ [(v, k)]\<rparr>)"
  using assms by (simp add: add_def Let_def hasKey_def hasValue_def Map_has_iff Map_set_fresh)

lemma from_one:
  "from_pairs kstr vstr (OfRecord [(''one'', 1::int)]) =
     Inr \<lparr>key2value = [(''one'', 1)], value2key = [(1, ''one'')]\<rparr>"
  by (simp add: from_pairs_def add_def BiMap_new_def Map_new_def hasKey_def hasValue_def Let_def)

text \<open>
  What \<open>add\<close> does in every state. The key is tested first and the value second; a
  conflict throws what the constructor of the conflict error throws, and without a
  conflict the pair is appended to both tables.
\<close>

lemma add_outcomes:
  "(hasKey b k \<longrightarrow> add kstr vstr b k v = (Inl (new_BiMapKeyConflictError kstr k), b)) \<and>
   (\<not> hasKey b k \<and> hasValue b v \<longrightarrow>
      add kstr vstr b k v = (Inl (new_BiMapValueConflictError vstr v), b)) \<and>
   (fst (add kstr vstr b k v) = Inr () \<longleftrightarrow> \<not> hasKey b k \<and> \<not> hasValue b v) \<and>
   (\<not> hasKey b k \<and> \<not> hasValue b v \<longrightarrow>
      entries (snd (add kstr vstr b k v)) = entries b @ [(k, v)] \<and>
      value2key (snd (add kstr vstr b k v)) = value2key b @ [(v, k)] \<and>
      getValue (snd (add kstr vstr b k v)) k = Some v \<and>
      getKey (snd (add kstr vstr b k v)) v = Some k)"
proof -
  have a: "hasKey b k \<longrightarrow> add kstr vstr b k v = (Inl (new_BiMapKeyConflictError kstr k), b)"
    by (simp add: add_def)
  have c: "\<not> hasKey b k \<and> hasValue b v \<longrightarrow>
      add kstr vstr b k v = (Inl (new_BiMapValueConflictError vstr v), b)"
    by (simp add: add_def)
  have d: "fst (add kstr vstr b k v) = Inr () \<longleftrightarrow> \<not> hasKey b k \<and> \<not> hasValue b v"
    by (simp add: add_def Let_def)
  have e: "entries (snd (add kstr vstr b k v)) = entries b @ [(k, v)] \<and>
      value2key (snd (add kstr vstr b k v)) = value2key b @ [(v, k)] \<and>
      getValue (snd (add kstr vstr b k v)) k = Some v \<and>
      getKey (snd (add kstr vstr b k v)) v = Some k" if "\<not> hasKey b k \<and> \<not> hasValue b v"
  proof -
    have fk: "k \<notin> fst ` set (key2value b)" and fv: "v \<notin> fst ` set (value2key b)"
      using that by (simp_all add: hasKey_def hasValue_def Map_has_iff)
    show ?thesis
      using that Map_get_append_fresh [OF fk, of v] Map_get_append_fresh [OF fv, of k]
      by (simp add: add_fresh entries_def Map_entries_def getValue_def getKey_def)
  qed
  show ?thesis using a c d e by blast
qed

text \<open>
  Where the key and the value convert to strings, the error is the conflict error of the
  claim: key conflict if and only if the key is present, otherwise value conflict if and
  only if the value is present.
\<close>

lemma add_conflicts_when_convertible:
  assumes "kstr k = Some sk" and "vstr v = Some sv"
  shows "(fst (add kstr vstr b k v) = Inl (BiMapKeyConflictError (''Key conflict: '' @ sk))
            \<longleftrightarrow> hasKey b k) \<and>
         (fst (add kstr vstr b k v) = Inl (BiMapValueConflictError (''Value conflict: '' @ sv))
            \<longleftrightarrow> \<not> hasKey b k \<and> hasValue b v)"
  using assms
  by (simp add: add_def Let_def new_BiMapKeyConflictError_def new_BiMapValueConflictError_def)

text \<open>\<open>add\<close> throws a \<open>TypeError\<close> exactly where the conflicting key or value does not convert.\<close>

lemma add_TypeError_iff:
  "fst (add kstr vstr b k v) = Inl TypeError \<longleftrightarrow>
     (hasKey b k \<and> kstr k = None) \<or> (\<not> hasKey b k \<and> hasValue b v \<and> vstr v = None)"
  by (simp add: add_def Let_def new_BiMapKeyConflictError_def new_BiMapValueConflictError_def
      split: option.splits)

text \<open>
  C3. The claim: for every state and every pair \<open>(k, v)\<close>, \<open>add(k, v)\<close> fails with the
  key-conflict error if and only if \<open>k\<close> is already a key, otherwise with the value-conflict
  error if and only if \<open>v\<close> is already a value, otherwise it succeeds and inserts \<open>(k, v)\<close>;
  the key is checked first. The documentation of \<open>add\<close> promises the same errors. The code
  departs from it where the conflicting key does not convert to a string: with a Symbol
  \<open>s\<close>, the container built from \<open>[[s, 'x']]\<close> has the key \<open>s\<close>, and \<open>add(s, 'y')\<close> throws a
  \<open>TypeError\<close> from the constructor of the key-conflict error, not that error.
\<close>

theorem add_on_present_symbol_throws_TypeError:
  "from_pairs PropertyKey_toString String_toString (OfArray [(SymbolKey ''s'', ''x'')]) =
     Inr \<lparr>key2value = [(SymbolKey ''s'', ''x'')], value2key = [(''x'', SymbolKey ''s'')]\<rparr> \<and>
   hasKey \<lparr>key2value = [(SymbolKey ''s'', ''x'')], value2key = [(''x'', SymbolKey ''s'')]\<rparr>
     (SymbolKey ''s'') \<and>
   add PropertyKey_toString String_toString
     \<lparr>key2value = [(SymbolKey ''s'', ''x'')], value2key = [(''x'', SymbolKey ''s'')]\<rparr>
     (SymbolKey ''s'') ''y'' =
     (Inl TypeError,
      \<lparr>key2value = [(SymbolKey ''s'', ''x'')], value2key = [(''x'', SymbolKey ''s'')]\<rparr>)"
  by (simp add: from_pairs_def add_def BiMap_new_def Map_new_def hasKey_def hasValue_def Let_def
      new_BiMapKeyConflictError_def)


subsection \<open>C4: a failed add changes nothing\<close>

text \<open>
  C4. In every state, whenever \<open>add(k, v)\<close> fails, the state after the call is the state
  before it: neither table is modified. In particular, from \<open>{one:1}\<close>, \<open>add('one', 2)\<close> fails
  with a key conflict and \<open>add('two', 1)\<close> fails with a value conflict, and the container is
  still \<open>{one:1}\<close> after each.
\<close>

theorem failed_add_changes_nothing:
  "(fst (add kstr vstr b k v) = Inl e \<longrightarrow> snd (add kstr vstr b k v) = b) \<and>
   from_pairs String_toString (Number_toString render) (OfRecord [(''one'', 1::int)]) =
     Inr \<lparr>key2value = [(''one'', 1)], value2key = [(1, ''one'')]\<rparr> \<and>
   add String_toString (Number_toString render)
     \<lparr>key2value = [(''one'', 1::int)], value2key = [(1, ''one'')]\<rparr> ''one'' 2 =
     (Inl (BiMapKeyConflictError ''Key conflict: one''),
      \<lparr>key2value = [(''one'', 1)], value2key = [(1, ''one'')]\<rparr>) \<and>
   add String_toString (Number_toString render)
     \<lparr>key2value = [(''one'', 1::int)], value2key = [(1, ''one'')]\<rparr> ''two'' 1 =
     (Inl (BiMapValueConflictError (''Value conflict: '' @ render 1)),
      \<lparr>key2value = [(''one'', 1)], value2key = [(1, ''one'')]\<rparr>)"
proof -
  have a: "fst (add kstr vstr b k v) = Inl e \<longrightarrow> snd (add kstr vstr b k v) = b"
    by (simp add: add_def Let_def)
  have b1: "add String_toString (Number_toString render)
     \<lparr>key2value = [(''one'', 1::int)], value2key = [(1, ''one'')]\<rparr> ''one'' 2 =
     (Inl (BiMapKeyConflictError ''Key conflict: one''),
      \<lparr>key2value = [(''one'', 1)], value2key = [(1, ''one'')]\<rparr>)"
    by (simp add: add_def hasKey_def new_BiMapKeyConflictError_def String_toString_def)
  have b2: "add String_toString (Number_toString render)
     \<lparr>key2value = [(''one'', 1::int)], value2key = [(1, ''one'')]\<rparr> ''two'' 1 =
     (Inl (BiMapValueConflictError (''Value conflict: '' @ render 1)),
      \<lparr>key2value = [(''one'', 1)], value2key = [(1, ''one'')]\<rparr>)"
    by (simp add: add_def hasKey_def hasValue_def new_BiMapValueConflictError_def
        Number_toString_def)
  show ?thesis using a from_one b1 b2 by blast
qed

theorem failed_add_changes_nothing_witness:
  "fst (add String_toString String_toString
          \<lparr>key2value = [(''one'', ''uno'')], value2key = [(''uno'', ''one'')]\<rparr> ''two'' ''uno'')
     = Inl (BiMapValueConflictError ''Value conflict: uno'') \<and>
   snd (add String_toString String_toString
          \<lparr>key2value = [(''one'', ''uno'')], value2key = [(''uno'', ''one'')]\<rparr> ''two'' ''uno'')
     = \<lparr>key2value = [(''one'', ''uno'')], value2key = [(''uno'', ''one'')]\<rparr>"
proof -
  let ?b = "\<lparr>key2value = [(''one'', ''uno'')], value2key = [(''uno'', ''one'')]\<rparr>"
  have f: "fst (add String_toString String_toString ?b ''two'' ''uno'')
             = Inl (BiMapValueConflictError ''Value conflict: uno'')"
    by (simp add: add_def hasKey_def hasValue_def new_BiMapValueConflictError_def
        String_toString_def)
  show ?thesis
    using failed_add_changes_nothing
      [of String_toString String_toString ?b "''two''" "''uno''"
          "BiMapValueConflictError ''Value conflict: uno''"] f
    by blast
qed


subsection \<open>C5: deleteKey removes one pair from both tables\<close>

lemma Map_get_filter_other:
  "k' \<noteq> k \<Longrightarrow> Map_get (filter (\<lambda>p. fst p \<noteq> k) m) k' = Map_get m k'"
  by (induction m) auto

lemma length_filter_key_present:
  assumes "distinct (map fst m)" "k \<in> fst ` set m"
  shows "length (filter (\<lambda>p. fst p \<noteq> k) m) + 1 = length m"
proof -
  have "filter (\<lambda>p. fst p = k) m \<noteq> []" using assms(2) by (auto simp: filter_empty_conv)
  then have "1 \<le> length (filter (\<lambda>p. fst p = k) m)" by (simp add: Suc_le_eq)
  then have one: "length (filter (\<lambda>p. fst p = k) m) = 1"
    using length_filter_distinct_le1 [OF assms(1), of k] by linarith
  show ?thesis using sum_length_filter_compl [of "\<lambda>p. fst p = k" m] one by simp
qed

lemma from_one_two:
  "from_pairs kstr vstr (OfRecord [(''one'', 1::int), (''two'', 2)]) =
     Inr \<lparr>key2value = [(''one'', 1), (''two'', 2)], value2key = [(1, ''one''), (2, ''two'')]\<rparr>"
  by (simp add: from_pairs_def add_def BiMap_new_def Map_new_def hasKey_def hasValue_def Let_def)

text \<open>
  C5. In every reachable state and for every key \<open>k\<close>, \<open>deleteKey(k)\<close> returns true if and only
  if a pair keyed \<open>k\<close> was present. In that case the pair is removed from the forward and from
  the inverse table and every other pair is left as it was, in the same order. If no pair
  is keyed \<open>k\<close>, it returns false and the container is unchanged. In particular, from
  \<open>{one:1, two:2}\<close>, \<open>deleteKey('one')\<close> returns true and leaves \<open>{two:2}\<close>; a second
  \<open>deleteKey('one')\<close> returns false and leaves \<open>{two:2}\<close>.
\<close>

theorem deleteKey_removes_pair:
  assumes "reachable b"
  shows "(fst (deleteKey b k) \<longleftrightarrow> hasKey b k) \<and>
         (hasKey b k \<longrightarrow>
            entries (snd (deleteKey b k)) = filter (\<lambda>p. fst p \<noteq> k) (entries b) \<and>
            value2key (snd (deleteKey b k)) = filter (\<lambda>q. snd q \<noteq> k) (value2key b) \<and>
            \<not> hasKey (snd (deleteKey b k)) k \<and>
            (\<forall>v. getValue b k = Some v \<longrightarrow> \<not> hasValue (snd (deleteKey b k)) v) \<and>
            (\<forall>k'. k' \<noteq> k \<longrightarrow> getValue (snd (deleteKey b k)) k' = getValue b k') \<and>
            size_of (snd (deleteKey b k)) + 1 = size_of b) \<and>
         (\<not> hasKey b k \<longrightarrow> deleteKey b k = (False, b)) \<and>
         from_pairs kstr vstr (OfRecord [(''one'', 1::int), (''two'', 2)]) =
           Inr \<lparr>key2value = [(''one'', 1), (''two'', 2)], value2key = [(1, ''one''), (2, ''two'')]\<rparr> \<and>
         deleteKey \<lparr>key2value = [(''one'', 1::int), (''two'', 2)],
                    value2key = [(1, ''one''), (2, ''two'')]\<rparr> ''one'' =
           (True, \<lparr>key2value = [(''two'', 2)], value2key = [(2, ''two'')]\<rparr>) \<and>
         deleteKey \<lparr>key2value = [(''two'', 2::int)], value2key = [(2, ''two'')]\<rparr> ''one'' =
           (False, \<lparr>key2value = [(''two'', 2)], value2key = [(2, ''two'')]\<rparr>)"
proof -
  have m: "mirrored b" using assms by (rule reachable_mirrored)
  let ?m = "filter (\<lambda>p. fst p \<noteq> k) (key2value b)"
  have st: "snd (deleteKey b k) = \<lparr>key2value = ?m, value2key = map prod.swap ?m\<rparr>"
    by (simp add: deleteKey_mirrored [OF m])
  have m': "mirrored (snd (deleteKey b k))" using m by (rule mirrored_deleteKey)
  have c1: "fst (deleteKey b k) \<longleftrightarrow> hasKey b k" by (simp add: deleteKey_def Let_def)
  have c2: "entries (snd (deleteKey b k)) = filter (\<lambda>p. fst p \<noteq> k) (entries b)"
    by (simp add: st entries_def Map_entries_def)
  have "value2key b = map prod.swap (key2value b)" using m by (simp add: mirrored_def)
  then have c3: "value2key (snd (deleteKey b k)) = filter (\<lambda>q. snd q \<noteq> k) (value2key b)"
    by (simp add: st filter_map comp_def)
  have "k \<notin> fst ` set ?m" by auto
  then have c4: "\<not> hasKey (snd (deleteKey b k)) k" unfolding mirrored_hasKey st by simp
  have c5: "\<not> hasValue (snd (deleteKey b k)) v" if "getValue b k = Some v" for v
  proof -
    have mem: "(k, v) \<in> set (key2value b)" using that by (simp add: mirrored_getValue [OF m])
    have "?m = filter (\<lambda>p. snd p \<noteq> v) (key2value b)"
      using swap_filter_key [OF _ _ mem] m by (simp add: mirrored_def)
    then have "v \<notin> snd ` set ?m" by auto
    then have "v \<notin> snd ` set (key2value (snd (deleteKey b k)))" unfolding st by simp
    then show ?thesis using mirrored_hasValue [OF m', of v] by blast
  qed
  have c6: "getValue (snd (deleteKey b k)) k' = getValue b k'" if "k' \<noteq> k" for k'
    using that by (simp add: st getValue_def Map_get_filter_other)
  have c7: "size_of (snd (deleteKey b k)) + 1 = size_of b" if "hasKey b k"
    using that m length_filter_key_present [of "key2value b" k]
    by (simp add: st size_of_def Map_size_def mirrored_hasKey mirrored_def)
  have c8: "\<not> hasKey b k \<longrightarrow> deleteKey b k = (False, b)" by (simp add: deleteKey_def)
  have c9: "deleteKey \<lparr>key2value = [(''one'', 1::int), (''two'', 2)],
                    value2key = [(1, ''one''), (2, ''two'')]\<rparr> ''one'' =
           (True, \<lparr>key2value = [(''two'', 2)], value2key = [(2, ''two'')]\<rparr>)"
    by (simp add: deleteKey_def hasKey_def)
  have c10: "deleteKey \<lparr>key2value = [(''two'', 2::int)], value2key = [(2, ''two'')]\<rparr> ''one'' =
           (False, \<lparr>key2value = [(''two'', 2)], value2key = [(2, ''two'')]\<rparr>)"
    by (simp add: deleteKey_def hasKey_def)
  show ?thesis using c1 c2 c3 c4 c5 c6 c7 c8 from_one_two c9 c10 by blast
qed

theorem deleteKey_removes_pair_witness:
  "reachable \<lparr>key2value = [(''one'', 1::int), (''two'', 2)], value2key = [(1, ''one''), (2, ''two'')]\<rparr> \<and>
   hasKey \<lparr>key2value = [(''one'', 1::int), (''two'', 2)], value2key = [(1, ''one''), (2, ''two'')]\<rparr> ''one'' \<and>
   fst (deleteKey \<lparr>key2value = [(''one'', 1::int), (''two'', 2)],
                   value2key = [(1, ''one''), (2, ''two'')]\<rparr> ''one'') \<and>
   entries (snd (deleteKey \<lparr>key2value = [(''one'', 1::int), (''two'', 2)],
                            value2key = [(1, ''one''), (2, ''two'')]\<rparr> ''one'')) = [(''two'', 2)]"
proof -
  let ?b = "\<lparr>key2value = [(''one'', 1::int), (''two'', 2)], value2key = [(1, ''one''), (2, ''two'')]\<rparr>"
  have r: "reachable ?b" using from_one_two by (rule reachable_from_pairs)
  have h: "hasKey ?b ''one''" by (simp add: hasKey_def)
  have e: "filter (\<lambda>p. fst p \<noteq> ''one'') (entries ?b) = [(''two'', 2)]"
    by (simp add: entries_def Map_entries_def)
  have "fst (deleteKey ?b ''one'') \<and>
        entries (snd (deleteKey ?b ''one'')) = filter (\<lambda>p. fst p \<noteq> ''one'') (entries ?b)"
    using deleteKey_removes_pair [OF r, of "''one''"] h by blast
  then show ?thesis using r h unfolding e by blast
qed


subsection \<open>C6: from is addAll on a new container\<close>

lemma addAll_iteration: "addAll kstr vstr b src = addAll_loop kstr vstr b (iteration_of src)"
  by (cases src) (simp_all add: iteration_of_def)

lemma addAll_loop_append:
  "addAll_loop kstr vstr b (ps @ qs) =
     (case addAll_loop kstr vstr b ps of
        (Inl e, b') \<Rightarrow> (Inl e, b')
      | (Inr u, b') \<Rightarrow> addAll_loop kstr vstr b' qs)"
proof (induction ps arbitrary: b)
  case Nil
  show ?case by simp
next
  case (Cons p ps)
  show ?case
  proof (cases "add kstr vstr b (fst p) (snd p)")
    case (Pair r b')
    then show ?thesis using Cons.IH [of b'] by (cases r) simp_all
  qed
qed

lemma addAll_loop_clean:
  assumes "mirrored b"
    and "distinct (map fst (key2value b @ ps))" and "distinct (map snd (key2value b @ ps))"
  shows "addAll_loop kstr vstr b ps =
     (Inr (), \<lparr>key2value = key2value b @ ps, value2key = map prod.swap (key2value b @ ps)\<rparr>)"
  using assms
proof (induction ps arbitrary: b)
  case Nil
  then show ?case using mirrored_eq [of b] by simp
next
  case (Cons p ps)
  let ?b' = "\<lparr>key2value = key2value b @ [p], value2key = map prod.swap (key2value b @ [p])\<rparr>"
  have fk: "fst p \<notin> fst ` set (key2value b)" and fv: "snd p \<notin> snd ` set (key2value b)"
    using Cons.prems(2,3) by auto
  have step: "add kstr vstr b (fst p) (snd p) = (Inr (), ?b')"
    using fk fv by (simp add: add_mirrored [OF Cons.prems(1)])
  have "mirrored (snd (add kstr vstr b (fst p) (snd p)))" using Cons.prems(1) by (rule mirrored_add)
  then have m': "mirrored ?b'" by (simp add: step)
  have "addAll_loop kstr vstr ?b' ps =
     (Inr (), \<lparr>key2value = key2value ?b' @ ps, value2key = map prod.swap (key2value ?b' @ ps)\<rparr>)"
    using m' Cons.prems(2,3) by (intro Cons.IH) simp_all
  then show ?case by (simp add: step)
qed

lemma addAll_loop_conflict:
  assumes "mirrored b"
    and "distinct (map fst (key2value b @ ps1))" and "distinct (map snd (key2value b @ ps1))"
    and "k \<in> fst ` set (key2value b @ ps1) \<or> v \<in> snd ` set (key2value b @ ps1)"
  shows "addAll_loop kstr vstr b (ps1 @ (k, v) # ps2) =
     (Inl (if k \<in> fst ` set (key2value b @ ps1) then new_BiMapKeyConflictError kstr k
           else new_BiMapValueConflictError vstr v),
      \<lparr>key2value = key2value b @ ps1, value2key = map prod.swap (key2value b @ ps1)\<rparr>)"
proof -
  define b1 where
    "b1 = \<lparr>key2value = key2value b @ ps1, value2key = map prod.swap (key2value b @ ps1)\<rparr>"
  have kv: "key2value b1 = key2value b @ ps1" by (simp add: b1_def)
  have pre: "addAll_loop kstr vstr b ps1 = (Inr (), b1)"
    unfolding b1_def using assms(1-3) by (rule addAll_loop_clean)
  have m1: "mirrored b1" unfolding b1_def using assms(2,3) by (rule mirroredI)
  have "add kstr vstr b1 k v =
     (Inl (if k \<in> fst ` set (key2value b @ ps1) then new_BiMapKeyConflictError kstr k
           else new_BiMapValueConflictError vstr v), b1)"
    using assms(4) unfolding add_mirrored [OF m1] kv by auto
  then have "addAll_loop kstr vstr b (ps1 @ (k, v) # ps2) =
     (Inl (if k \<in> fst ` set (key2value b @ ps1) then new_BiMapKeyConflictError kstr k
           else new_BiMapValueConflictError vstr v), b1)"
    by (simp add: addAll_loop_append pre)
  then show ?thesis unfolding b1_def .
qed

lemma addAll_loop_ok_iff:
  "mirrored b \<Longrightarrow>
   fst (addAll_loop kstr vstr b ps) = Inr () \<longleftrightarrow>
     distinct (map fst (key2value b @ ps)) \<and> distinct (map snd (key2value b @ ps))"
proof (induction ps arbitrary: b)
  case Nil
  then show ?case by (simp add: mirrored_def)
next
  case (Cons p ps)
  show ?case
  proof (cases "fst p \<in> fst ` set (key2value b) \<or> snd p \<in> snd ` set (key2value b)")
    case True
    then have "fst (add kstr vstr b (fst p) (snd p)) \<noteq> Inr ()"
      by (auto simp: add_mirrored [OF Cons.prems])
    then have "fst (addAll_loop kstr vstr b (p # ps)) \<noteq> Inr ()"
      by (cases "add kstr vstr b (fst p) (snd p)") (auto split: sum.splits)
    moreover have "\<not> (distinct (map fst (key2value b @ p # ps)) \<and>
                        distinct (map snd (key2value b @ p # ps)))"
      using True by auto
    ultimately show ?thesis by blast
  next
    case False
    let ?b' = "\<lparr>key2value = key2value b @ [p], value2key = map prod.swap (key2value b @ [p])\<rparr>"
    have step: "add kstr vstr b (fst p) (snd p) = (Inr (), ?b')"
      using False by (simp add: add_mirrored [OF Cons.prems])
    have "mirrored (snd (add kstr vstr b (fst p) (snd p)))" using Cons.prems by (rule mirrored_add)
    then have m': "mirrored ?b'" by (simp add: step)
    show ?thesis using Cons.IH [OF m'] by (simp add: step)
  qed
qed

text \<open>
  \<open>from\<close> is \<open>addAll\<close> on a new container: it returns the container \<open>addAll\<close> leaves and
  throws what \<open>addAll\<close> throws. It fails exactly when the source's pairs repeat a key or a
  value, and otherwise holds the source's pairs in iteration order. Sources with the same
  pairs give the same result whatever their shape.
\<close>

lemma from_pairs_outcomes:
  "(from_pairs kstr vstr src = Inr c \<longleftrightarrow> addAll kstr vstr BiMap_new src = (Inr (), c)) \<and>
   (from_pairs kstr vstr src = Inl e \<longleftrightarrow> fst (addAll kstr vstr BiMap_new src) = Inl e) \<and>
   ((\<exists>e'. from_pairs kstr vstr src = Inl e') \<longleftrightarrow>
      \<not> distinct (map fst (iteration_of src)) \<or> \<not> distinct (map snd (iteration_of src))) \<and>
   (distinct (map fst (iteration_of src)) \<and> distinct (map snd (iteration_of src)) \<longrightarrow>
      from_pairs kstr vstr src =
        Inr \<lparr>key2value = iteration_of src, value2key = map prod.swap (iteration_of src)\<rparr>) \<and>
   (iteration_of src = iteration_of src' \<longrightarrow>
      from_pairs kstr vstr src = from_pairs kstr vstr src')"
proof -
  have c1: "from_pairs kstr vstr src = Inr c \<longleftrightarrow> addAll kstr vstr BiMap_new src = (Inr (), c)"
    by (auto simp: from_pairs_def split: prod.splits sum.splits)
  have c2: "from_pairs kstr vstr src = Inl e \<longleftrightarrow> fst (addAll kstr vstr BiMap_new src) = Inl e"
    by (auto simp: from_pairs_def split: prod.splits sum.splits)
  have kv: "key2value (BiMap_new :: ('a, 'b) BiMap) = []"
    by (simp add: BiMap_new_def Map_new_def)
  have ok: "fst (addAll kstr vstr BiMap_new src) = Inr () \<longleftrightarrow>
            distinct (map fst (iteration_of src)) \<and> distinct (map snd (iteration_of src))"
    using addAll_loop_ok_iff [OF mirrored_new, of kstr vstr "iteration_of src"]
    by (simp add: addAll_iteration kv)
  have "(\<exists>e'. from_pairs kstr vstr src = Inl e') \<longleftrightarrow>
        fst (addAll kstr vstr BiMap_new src) \<noteq> Inr ()"
    by (auto simp: from_pairs_def split: prod.splits sum.splits)
  then have c3: "(\<exists>e'. from_pairs kstr vstr src = Inl e') \<longleftrightarrow>
      \<not> distinct (map fst (iteration_of src)) \<or> \<not> distinct (map snd (iteration_of src))"
    using ok by blast
  have c4: "from_pairs kstr vstr src =
        Inr \<lparr>key2value = iteration_of src, value2key = map prod.swap (iteration_of src)\<rparr>"
    if "distinct (map fst (iteration_of src)) \<and> distinct (map snd (iteration_of src))"
    using that addAll_loop_clean [OF mirrored_new, of "iteration_of src" kstr vstr]
    by (simp add: from_pairs_def addAll_iteration kv)
  have c5: "iteration_of src = iteration_of src' \<longrightarrow>
      from_pairs kstr vstr src = from_pairs kstr vstr src'"
    by (simp add: from_pairs_def addAll_iteration)
  show ?thesis using c1 c2 c3 c4 c5 by blast
qed

text \<open>The four shapes of \<open>{one:1, two:2}\<close> give the same container.\<close>

lemma from_pairs_four_shapes:
  "from_pairs kstr vstr (OfBiMap \<lparr>key2value = [(''one'', 1::int), (''two'', 2)],
                        value2key = [(1, ''one''), (2, ''two'')]\<rparr>) =
     Inr \<lparr>key2value = [(''one'', 1), (''two'', 2)], value2key = [(1, ''one''), (2, ''two'')]\<rparr> \<and>
   from_pairs kstr vstr (OfMap [(''one'', 1::int), (''two'', 2)]) =
     Inr \<lparr>key2value = [(''one'', 1), (''two'', 2)], value2key = [(1, ''one''), (2, ''two'')]\<rparr> \<and>
   from_pairs kstr vstr (OfArray [(''one'', 1::int), (''two'', 2)]) =
     Inr \<lparr>key2value = [(''one'', 1), (''two'', 2)], value2key = [(1, ''one''), (2, ''two'')]\<rparr> \<and>
   from_pairs kstr vstr (OfRecord [(''one'', 1::int), (''two'', 2)]) =
     Inr \<lparr>key2value = [(''one'', 1), (''two'', 2)], value2key = [(1, ''one''), (2, ''two'')]\<rparr>"
  by (simp add: from_pairs_def add_def BiMap_new_def Map_new_def Map_entries_def hasKey_def
      hasValue_def Let_def)

text \<open>
  Where the first repeated key or value converts to a string, the error of \<open>from\<close> is the
  conflict error of \<open>add\<close> at that pair; the lemma names it for every ToString.
\<close>

lemma from_pairs_first_conflict:
  assumes "iteration_of src = ps1 @ (k, v) # ps2"
    and "distinct (map fst ps1)" and "distinct (map snd ps1)"
    and "k \<in> fst ` set ps1 \<or> v \<in> snd ` set ps1"
  shows "from_pairs kstr vstr src =
     Inl (if k \<in> fst ` set ps1 then new_BiMapKeyConflictError kstr k
          else new_BiMapValueConflictError vstr v)"
proof -
  have kv: "key2value (BiMap_new :: ('a, 'b) BiMap) = []"
    by (simp add: BiMap_new_def Map_new_def)
  have "addAll_loop kstr vstr BiMap_new (ps1 @ (k, v) # ps2) =
     (Inl (if k \<in> fst ` set ps1 then new_BiMapKeyConflictError kstr k
           else new_BiMapValueConflictError vstr v),
      \<lparr>key2value = ps1, value2key = map prod.swap ps1\<rparr>)"
    using addAll_loop_conflict [OF mirrored_new, where ?ps1.0 = ps1 and k = k and v = v]
      assms(2-4)
    by (simp add: kv)
  then show ?thesis
    by (simp add: from_pairs_def addAll_iteration assms(1))
qed

text \<open>
  C6. The claim: for every accepted shape of source, \<open>from(source)\<close> produces the container
  that \<open>addAll(source)\<close> produces on a new empty BiMap, and so fails with a strict-mode
  conflict error whenever the source repeats a key or a value; sources holding the same data
  give containers with the same query results. The code departs from it where the repeated
  key does not convert to a string: with a Symbol \<open>s\<close>, \<open>from([[s, 'x'], [s, 'y']])\<close>
  repeats the key \<open>s\<close> and throws a \<open>TypeError\<close> from the constructor of the key-conflict
  error, not a conflict error.
\<close>

theorem from_repeated_symbol_throws_TypeError:
  "map fst (iteration_of (OfArray [(SymbolKey ''s'', ''x''), (SymbolKey ''s'', ''y'')])) =
     [SymbolKey ''s'', SymbolKey ''s''] \<and>
   from_pairs PropertyKey_toString String_toString
     (OfArray [(SymbolKey ''s'', ''x''), (SymbolKey ''s'', ''y'')]) = Inl TypeError"
  by (simp add: iteration_of_def from_pairs_def add_def BiMap_new_def Map_new_def hasKey_def
      hasValue_def Let_def new_BiMapKeyConflictError_def)


subsection \<open>C7: addAll stops at the first conflict and keeps what it applied\<close>

text \<open>
  What \<open>addAll\<close> does in every reachable state: it applies \<open>add\<close> once per pair in the
  source's iteration order. If the pairs before \<open>(k, v)\<close> apply without conflict and
  \<open>(k, v)\<close> conflicts with the container as it is then, \<open>addAll\<close> throws what \<open>add(k, v)\<close>
  throws at that point (the key tested first); the pairs before \<open>(k, v)\<close> remain in the
  container, and \<open>(k, v)\<close> and all later pairs are not applied: nothing is rolled back. If
  no pair conflicts, all pairs are appended in order.
\<close>

lemma addAll_outcomes:
  assumes "reachable b"
  shows "(\<forall>ps1 k v ps2.
            iteration_of src = ps1 @ (k, v) # ps2 \<and>
            distinct (map fst (entries b @ ps1)) \<and> distinct (map snd (entries b @ ps1)) \<and>
            (k \<in> fst ` set (entries b @ ps1) \<or> v \<in> snd ` set (entries b @ ps1)) \<longrightarrow>
              addAll kstr vstr b src = add kstr vstr (snd (addAll_loop kstr vstr b ps1)) k v \<and>
              fst (addAll kstr vstr b src) =
                Inl (if k \<in> fst ` set (entries b @ ps1) then new_BiMapKeyConflictError kstr k
                     else new_BiMapValueConflictError vstr v) \<and>
              entries (snd (addAll kstr vstr b src)) = entries b @ ps1 \<and>
              value2key (snd (addAll kstr vstr b src)) = map prod.swap (entries b @ ps1)) \<and>
         (distinct (map fst (entries b @ iteration_of src)) \<and>
          distinct (map snd (entries b @ iteration_of src)) \<longrightarrow>
            fst (addAll kstr vstr b src) = Inr () \<and>
            entries (snd (addAll kstr vstr b src)) = entries b @ iteration_of src \<and>
            value2key (snd (addAll kstr vstr b src)) = map prod.swap (entries b @ iteration_of src))"
proof -
  have m: "mirrored b" using assms by (rule reachable_mirrored)
  have e: "entries b = key2value b" by (simp add: entries_def Map_entries_def)
  have fail: "addAll kstr vstr b src = add kstr vstr (snd (addAll_loop kstr vstr b ps1)) k v \<and>
              fst (addAll kstr vstr b src) =
                Inl (if k \<in> fst ` set (entries b @ ps1) then new_BiMapKeyConflictError kstr k
                     else new_BiMapValueConflictError vstr v) \<and>
              entries (snd (addAll kstr vstr b src)) = entries b @ ps1 \<and>
              value2key (snd (addAll kstr vstr b src)) = map prod.swap (entries b @ ps1)"
    if it: "iteration_of src = ps1 @ (k, v) # ps2"
      and d1: "distinct (map fst (entries b @ ps1))"
      and d2: "distinct (map snd (entries b @ ps1))"
      and cf: "k \<in> fst ` set (entries b @ ps1) \<or> v \<in> snd ` set (entries b @ ps1)"
    for ps1 k v ps2
  proof -
    define b1 where
      "b1 = \<lparr>key2value = key2value b @ ps1, value2key = map prod.swap (key2value b @ ps1)\<rparr>"
    have pre: "addAll_loop kstr vstr b ps1 = (Inr (), b1)"
      unfolding b1_def using m d1 d2 unfolding e by (rule addAll_loop_clean)
    have whole: "addAll kstr vstr b src =
        (Inl (if k \<in> fst ` set (key2value b @ ps1) then new_BiMapKeyConflictError kstr k
              else new_BiMapValueConflictError vstr v), b1)"
      unfolding addAll_iteration it b1_def using m d1 d2 cf unfolding e
      by (rule addAll_loop_conflict)
    have kv1: "key2value b1 = key2value b @ ps1" by (simp add: b1_def)
    have m1: "mirrored b1" unfolding b1_def using d1 d2 unfolding e by (rule mirroredI)
    have "add kstr vstr b1 k v =
        (Inl (if k \<in> fst ` set (key2value b @ ps1) then new_BiMapKeyConflictError kstr k
              else new_BiMapValueConflictError vstr v), b1)"
      using cf unfolding add_mirrored [OF m1] kv1 e by auto
    then have c1: "addAll kstr vstr b src = add kstr vstr (snd (addAll_loop kstr vstr b ps1)) k v" by (simp add: pre whole)
    have c2: "fst (addAll kstr vstr b src) =
                Inl (if k \<in> fst ` set (entries b @ ps1) then new_BiMapKeyConflictError kstr k
                     else new_BiMapValueConflictError vstr v)"
      unfolding whole e by simp
    have c3: "entries (snd (addAll kstr vstr b src)) = entries b @ ps1"
      unfolding whole by (simp add: b1_def entries_def Map_entries_def)
    have c4: "value2key (snd (addAll kstr vstr b src)) = map prod.swap (entries b @ ps1)"
      unfolding whole e by (simp add: b1_def)
    show ?thesis using c1 c2 c3 c4 by blast
  qed
  have ok: "fst (addAll kstr vstr b src) = Inr () \<and>
            entries (snd (addAll kstr vstr b src)) = entries b @ iteration_of src \<and>
            value2key (snd (addAll kstr vstr b src)) = map prod.swap (entries b @ iteration_of src)"
    if d1: "distinct (map fst (entries b @ iteration_of src))"
      and d2: "distinct (map snd (entries b @ iteration_of src))"
  proof -
    have "addAll_loop kstr vstr b (iteration_of src) =
        (Inr (), \<lparr>key2value = key2value b @ iteration_of src,
                  value2key = map prod.swap (key2value b @ iteration_of src)\<rparr>)"
      using m d1 d2 unfolding e by (rule addAll_loop_clean)
    then show ?thesis by (simp add: addAll_iteration entries_def Map_entries_def)
  qed
  show ?thesis using fail ok by blast
qed

text \<open>
  C7. The claim: \<open>addAll(source)\<close> applies \<open>add\<close> once per pair in iteration order; if some
  pair conflicts it raises the corresponding conflict error at that point, the pairs
  applied before stay, and the failing pair and all later pairs are not applied. The
  documentation of \<open>addAll\<close> promises the same errors. The code keeps and drops the pairs as
  claimed, but departs from the claim in the error where the conflicting key does not
  convert to a string: with a Symbol \<open>s\<close>, \<open>addAll([['a', 'x'], [s, 'y'], [s, 'z'], ['b', 'w']])\<close>
  on an empty container throws a \<open>TypeError\<close> at the third pair, not the key-conflict error,
  and leaves the first two pairs.
\<close>

theorem addAll_repeated_symbol_throws_TypeError:
  "addAll PropertyKey_toString String_toString BiMap_new
     (OfArray [(StringKey ''a'', ''x''), (SymbolKey ''s'', ''y''),
               (SymbolKey ''s'', ''z''), (StringKey ''b'', ''w'')]) =
     (Inl TypeError,
      \<lparr>key2value = [(StringKey ''a'', ''x''), (SymbolKey ''s'', ''y'')],
       value2key = [(''x'', StringKey ''a''), (''y'', SymbolKey ''s'')]\<rparr>)"
  by (simp add: add_def BiMap_new_def Map_new_def hasKey_def hasValue_def Let_def
      new_BiMapKeyConflictError_def)


subsection \<open>C8: a clone shares nothing with its original\<close>






subsection \<open>C9: lookups return an absent result instead of throwing\<close>

text \<open>
  C9. In every reachable state, \<open>getValue(k)\<close> returns the value paired with \<open>k\<close> when
  \<open>hasKey(k)\<close>, and the absent result when no pair is keyed \<open>k\<close>; \<open>getKey(v)\<close> returns the key
  paired with \<open>v\<close>, or the absent result. Neither has a throwing branch: the result type is
  an option, with no error component. In particular, on the container built from
  \<open>{one:1}\<close>, \<open>getValue('two')\<close> and \<open>getKey(2)\<close> are both absent.
\<close>

theorem lookups_never_throw:
  assumes "reachable b"
  shows "(hasKey b k \<longrightarrow> (\<exists>v. getValue b k = Some v \<and> (k, v) \<in> set (entries b))) \<and>
         (\<not> hasKey b k \<longrightarrow> getValue b k = None) \<and>
         (hasValue b v \<longrightarrow> (\<exists>k. getKey b v = Some k \<and> (k, v) \<in> set (entries b))) \<and>
         (\<not> hasValue b v \<longrightarrow> getKey b v = None) \<and>
         from_pairs kstr vstr (OfRecord [(''one'', 1::int)]) =
           Inr \<lparr>key2value = [(''one'', 1)], value2key = [(1, ''one'')]\<rparr> \<and>
         getValue \<lparr>key2value = [(''one'', 1::int)], value2key = [(1, ''one'')]\<rparr> ''two'' = None \<and>
         getKey \<lparr>key2value = [(''one'', 1::int)], value2key = [(1, ''one'')]\<rparr> 2 = None"
proof -
  have m: "mirrored b" using assms by (rule reachable_mirrored)
  have c1: "\<exists>v. getValue b k = Some v \<and> (k, v) \<in> set (entries b)" if "hasKey b k"
  proof -
    have "getValue b k \<noteq> None"
      using that by (simp add: hasKey_def getValue_def Map_has_get)
    then obtain v where "getValue b k = Some v" by blast
    then show ?thesis
      using mirrored_getValue [OF m, of k v] by (auto simp: entries_def Map_entries_def)
  qed
  have c2: "\<not> hasKey b k \<longrightarrow> getValue b k = None"
    by (simp add: hasKey_def getValue_def Map_has_get)
  have c3: "\<exists>k. getKey b v = Some k \<and> (k, v) \<in> set (entries b)" if "hasValue b v"
  proof -
    have "getKey b v \<noteq> None"
      using that by (simp add: hasValue_def getKey_def Map_has_get)
    then obtain k where "getKey b v = Some k" by blast
    then show ?thesis
      using mirrored_getKey [OF m, of v k] by (auto simp: entries_def Map_entries_def)
  qed
  have c4: "\<not> hasValue b v \<longrightarrow> getKey b v = None"
    by (simp add: hasValue_def getKey_def Map_has_get)
  have c5: "getValue \<lparr>key2value = [(''one'', 1::int)], value2key = [(1, ''one'')]\<rparr> ''two'' = None"
    by (simp add: getValue_def)
  have c6: "getKey \<lparr>key2value = [(''one'', 1::int)], value2key = [(1, ''one'')]\<rparr> 2 = None"
    by (simp add: getKey_def)
  show ?thesis using c1 c2 c3 c4 from_one c5 c6 by blast
qed

theorem lookups_never_throw_witness:
  "reachable \<lparr>key2value = [(''one'', 1::int)], value2key = [(1, ''one'')]\<rparr> \<and>
   hasKey \<lparr>key2value = [(''one'', 1::int)], value2key = [(1, ''one'')]\<rparr> ''one'' \<and>
   \<not> hasValue \<lparr>key2value = [(''one'', 1::int)], value2key = [(1, ''one'')]\<rparr> 2 \<and>
   (\<exists>v. getValue \<lparr>key2value = [(''one'', 1::int)], value2key = [(1, ''one'')]\<rparr> ''one'' = Some v) \<and>
   getKey \<lparr>key2value = [(''one'', 1::int)], value2key = [(1, ''one'')]\<rparr> 2 = None"
proof -
  let ?b = "\<lparr>key2value = [(''one'', 1::int)], value2key = [(1, ''one'')]\<rparr>"
  have r: "reachable ?b" using from_one by (rule reachable_from_pairs)
  have h: "hasKey ?b ''one''" by (simp add: hasKey_def)
  have n: "\<not> hasValue ?b 2" by (simp add: hasValue_def)
  show ?thesis using lookups_never_throw [OF r, of "''one''" 2] r h n by blast
qed


subsection \<open>C10: set on a pair already present moves it to the end\<close>

lemma pair_of_key:
  assumes "distinct (map fst m)" "(k, v) \<in> set m" "p \<in> set m" "fst p = k"
  shows "p = (k, v)"
  using assms eq_key_imp_eq_value [of m k "snd p" v] by (cases p) auto

lemma pair_of_value:
  assumes "distinct (map snd m)" "(k, v) \<in> set m" "p \<in> set m" "snd p = v"
  shows "p = (k, v)"
proof -
  have "distinct (map fst (map prod.swap m))" using assms(1) by (simp add: comp_def)
  then show ?thesis
    using assms(2-4) eq_key_imp_eq_value [of "map prod.swap m" v "fst p" k] by (cases p) force
qed

lemma filter_to_pair:
  assumes "distinct (map fst m)" "distinct (map snd m)" "(k, v) \<in> set m"
  shows "filter (\<lambda>p. fst p \<noteq> k \<and> snd p \<noteq> v) m = filter (\<lambda>p. p \<noteq> (k, v)) m"
    and "filter (\<lambda>p. fst p \<noteq> k \<and> snd p \<noteq> v) m = filter (\<lambda>p. fst p \<noteq> k) m"
    and "filter (\<lambda>p. fst p \<noteq> k \<and> snd p \<noteq> v) m = filter (\<lambda>p. snd p \<noteq> v) m"
proof -
  have sw: "filter (\<lambda>p. snd p \<noteq> v) m = filter (\<lambda>p. fst p \<noteq> k) m"
    using assms by (rule swap_filter_key)
  have "filter (\<lambda>p. fst p \<noteq> k \<and> snd p \<noteq> v) m
        = filter (\<lambda>p. snd p \<noteq> v) (filter (\<lambda>p. fst p \<noteq> k) m)"
    by simp
  also have "\<dots> = filter (\<lambda>p. snd p \<noteq> v) (filter (\<lambda>p. snd p \<noteq> v) m)"
    unfolding sw ..
  also have "\<dots> = filter (\<lambda>p. snd p \<noteq> v) m" by simp
  finally show b: "filter (\<lambda>p. fst p \<noteq> k \<and> snd p \<noteq> v) m = filter (\<lambda>p. snd p \<noteq> v) m" .
  then show a: "filter (\<lambda>p. fst p \<noteq> k \<and> snd p \<noteq> v) m = filter (\<lambda>p. fst p \<noteq> k) m"
    using sw by simp
  have "filter (\<lambda>p. fst p \<noteq> k) m = filter (\<lambda>p. p \<noteq> (k, v)) m"
  proof (rule filter_cong [OF refl])
    fix p assume p: "p \<in> set m"
    have "fst p = k \<Longrightarrow> p = (k, v)"
      using assms(1,3) p eq_key_imp_eq_value [of m k "snd p" v] by (cases p) auto
    then show "(fst p \<noteq> k) = (p \<noteq> (k, v))" by auto
  qed
  then show "filter (\<lambda>p. fst p \<noteq> k \<and> snd p \<noteq> v) m = filter (\<lambda>p. p \<noteq> (k, v)) m"
    using a by simp
qed

lemma filter_out_last:
  assumes "distinct m" "x \<in> set m"
  shows "filter (\<lambda>p. p \<noteq> x) m @ [x] = m \<longleftrightarrow> last m = x"
proof
  assume "filter (\<lambda>p. p \<noteq> x) m @ [x] = m"
  then have "last m = last (filter (\<lambda>p. p \<noteq> x) m @ [x])" by simp
  then show "last m = x" by simp
next
  assume l: "last m = x"
  have ne: "m \<noteq> []" using assms(2) by auto
  then have m: "m = butlast m @ [x]" using l append_butlast_last_id [OF ne] by simp
  then have "distinct (butlast m @ [x])" using assms(1) by simp
  then have "x \<notin> set (butlast m)" by simp
  then have "filter (\<lambda>p. p \<noteq> x) (butlast m) = butlast m" by (auto simp: filter_id_conv)
  then have "filter (\<lambda>p. p \<noteq> x) (butlast m @ [x]) @ [x] = butlast m @ [x]" by simp
  then show "filter (\<lambda>p. p \<noteq> x) m @ [x] = m" using m by simp
qed

text \<open>
  C10, as amended. In every reachable state that already holds the exact pair \<open>(k, v)\<close>,
  \<open>set(k, v)\<close> leaves the set of pairs and the size unchanged and moves \<open>(k, v)\<close> to the last
  position of the sequences produced by \<open>keys()\<close>, \<open>values()\<close> and \<open>entries()\<close>, the other pairs
  keeping their relative order. The iteration order changes exactly when \<open>(k, v)\<close> was not
  already the last pair. As stated, the claim has the order change in every such state;
  the counterexample below is a state where \<open>(k, v)\<close> is last and the order stays the same.
\<close>

theorem set_same_pair_moves_it_last:
  assumes "reachable b" and "getValue b k = Some v"
  shows "set (entries (set_pair b k v)) = set (entries b) \<and>
         size_of (set_pair b k v) = size_of b \<and>
         entries (set_pair b k v) = filter (\<lambda>p. p \<noteq> (k, v)) (entries b) @ [(k, v)] \<and>
         keys (set_pair b k v) = filter (\<lambda>x. x \<noteq> k) (keys b) @ [k] \<and>
         values_of (set_pair b k v) = filter (\<lambda>x. x \<noteq> v) (values_of b) @ [v] \<and>
         (entries (set_pair b k v) = entries b \<longleftrightarrow> last (entries b) = (k, v)) \<and>
         (keys (set_pair b k v) = keys b \<longleftrightarrow> last (entries b) = (k, v)) \<and>
         (values_of (set_pair b k v) = values_of b \<longleftrightarrow> last (entries b) = (k, v))"
proof -
  have m: "mirrored b" using assms(1) by (rule reachable_mirrored)
  have d1: "distinct (map fst (key2value b))" and d2: "distinct (map snd (key2value b))"
    and v2k: "value2key b = map prod.swap (key2value b)"
    using m by (simp_all add: mirrored_def)
  have mem: "(k, v) \<in> set (key2value b)" using assms(2) by (simp add: mirrored_getValue [OF m])
  have e: "entries b = key2value b" by (simp add: entries_def Map_entries_def)
  have ks: "keys b = map fst (key2value b)" by (simp add: keys_def Map_keys_def)
  have vs: "values_of b = map snd (key2value b)"
    by (simp add: values_of_def Map_keys_def v2k comp_def)
  let ?m = "filter (\<lambda>p. fst p \<noteq> k \<and> snd p \<noteq> v) (key2value b)"
  have st: "set_pair b k v = \<lparr>key2value = ?m @ [(k, v)], value2key = map prod.swap (?m @ [(k, v)])\<rparr>"
    using m by (rule set_pair_mirrored)
  have e': "entries (set_pair b k v) = ?m @ [(k, v)]"
    by (simp add: st entries_def Map_entries_def)
  have ks': "keys (set_pair b k v) = map fst ?m @ [k]"
    by (simp add: st keys_def Map_keys_def)
  have vs': "values_of (set_pair b k v) = map snd ?m @ [v]"
    by (simp add: st values_of_def Map_keys_def comp_def)
  note f = filter_to_pair [OF d1 d2 mem]
  have c3: "entries (set_pair b k v) = filter (\<lambda>p. p \<noteq> (k, v)) (entries b) @ [(k, v)]"
    unfolding e' e f(1) ..
  have c4: "keys (set_pair b k v) = filter (\<lambda>x. x \<noteq> k) (keys b) @ [k]"
    unfolding ks' ks f(2) by (simp add: filter_map comp_def)
  have c5: "values_of (set_pair b k v) = filter (\<lambda>x. x \<noteq> v) (values_of b) @ [v]"
    unfolding vs' vs f(3) by (simp add: filter_map comp_def)
  have c1: "set (entries (set_pair b k v)) = set (entries b)"
    unfolding c3 e using mem by auto
  have "length (filter (\<lambda>p. fst p \<noteq> k) (key2value b)) + 1 = length (key2value b)"
    using d1 mem by (intro length_filter_key_present) (auto simp: rev_image_eqI)
  then have c2: "size_of (set_pair b k v) = size_of b"
    by (simp add: st f(2) size_of_def Map_size_def)
  have dk: "distinct (key2value b)" using d1 by (rule distinct_map [THEN iffD1, THEN conjunct1])
  have c6: "entries (set_pair b k v) = entries b \<longleftrightarrow> last (entries b) = (k, v)"
    unfolding c3 e using dk mem by (rule filter_out_last)
  have ne: "key2value b \<noteq> []" using mem by auto
  have kmem: "k \<in> set (map fst (key2value b))" using mem by (auto simp: rev_image_eqI)
  have vmem: "v \<in> set (map snd (key2value b))" using mem by (auto simp: rev_image_eqI)
  have lk: "last (map fst (key2value b)) = k \<longleftrightarrow> last (key2value b) = (k, v)"
  proof
    assume a: "last (map fst (key2value b)) = k"
    have l: "last (key2value b) \<in> set (key2value b)" using ne by simp
    have "fst (last (key2value b)) = k" using a ne by (simp add: last_map)
    then show "last (key2value b) = (k, v)" using d1 mem l by (intro pair_of_key)
  next
    assume "last (key2value b) = (k, v)"
    then show "last (map fst (key2value b)) = k" using ne by (simp add: last_map)
  qed
  have lv: "last (map snd (key2value b)) = v \<longleftrightarrow> last (key2value b) = (k, v)"
  proof
    assume a: "last (map snd (key2value b)) = v"
    have l: "last (key2value b) \<in> set (key2value b)" using ne by simp
    have sv: "snd (last (key2value b)) = v" using a ne by (simp add: last_map)
    show "last (key2value b) = (k, v)" using d2 mem l sv by (intro pair_of_value)
  next
    assume "last (key2value b) = (k, v)"
    then show "last (map snd (key2value b)) = v" using ne by (simp add: last_map)
  qed
  have c7: "keys (set_pair b k v) = keys b \<longleftrightarrow> last (entries b) = (k, v)"
    unfolding c4 ks e using filter_out_last [OF d1 kmem] lk by simp
  have c8: "values_of (set_pair b k v) = values_of b \<longleftrightarrow> last (entries b) = (k, v)"
    unfolding c5 vs e using filter_out_last [OF d2 vmem] lv by simp
  show ?thesis using c1 c2 c3 c4 c5 c6 c7 c8 by blast
qed

theorem set_same_pair_moves_it_last_witness:
  "reachable \<lparr>key2value = [(''a'', 1::int), (''b'', 2)], value2key = [(1, ''a''), (2, ''b'')]\<rparr> \<and>
   getValue \<lparr>key2value = [(''a'', 1::int), (''b'', 2)], value2key = [(1, ''a''), (2, ''b'')]\<rparr> ''a''
     = Some 1 \<and>
   keys \<lparr>key2value = [(''a'', 1::int), (''b'', 2)], value2key = [(1, ''a''), (2, ''b'')]\<rparr>
     = [''a'', ''b''] \<and>
   keys (set_pair \<lparr>key2value = [(''a'', 1::int), (''b'', 2)], value2key = [(1, ''a''), (2, ''b'')]\<rparr>
           ''a'' 1) = [''b'', ''a'']"
proof -
  let ?b = "\<lparr>key2value = [(''a'', 1::int), (''b'', 2)], value2key = [(1, ''a''), (2, ''b'')]\<rparr>"
  have r: "reachable ?b" using from_a1_b2 by (rule reachable_from_pairs)
  have g: "getValue ?b ''a'' = Some 1" by (simp add: getValue_def)
  have ks: "keys ?b = [''a'', ''b'']" by (simp add: keys_def Map_keys_def)
  have "keys (set_pair ?b ''a'' 1) = filter (\<lambda>x. x \<noteq> ''a'') (keys ?b) @ [''a'']"
    using set_same_pair_moves_it_last [OF r g] by blast
  then have "keys (set_pair ?b ''a'' 1) = [''b'', ''a'']" unfolding ks by simp
  then show ?thesis using r g ks by blast
qed

theorem set_same_pair_order_counterexample:
  "reachable \<lparr>key2value = [(''a'', 1::int), (''b'', 2)], value2key = [(1, ''a''), (2, ''b'')]\<rparr> \<and>
   getValue \<lparr>key2value = [(''a'', 1::int), (''b'', 2)], value2key = [(1, ''a''), (2, ''b'')]\<rparr> ''b''
     = Some 2 \<and>
   keys (set_pair \<lparr>key2value = [(''a'', 1::int), (''b'', 2)], value2key = [(1, ''a''), (2, ''b'')]\<rparr>
           ''b'' 2)
     = keys \<lparr>key2value = [(''a'', 1::int), (''b'', 2)], value2key = [(1, ''a''), (2, ''b'')]\<rparr> \<and>
   values_of (set_pair \<lparr>key2value = [(''a'', 1::int), (''b'', 2)], value2key = [(1, ''a''), (2, ''b'')]\<rparr>
           ''b'' 2)
     = values_of \<lparr>key2value = [(''a'', 1::int), (''b'', 2)], value2key = [(1, ''a''), (2, ''b'')]\<rparr> \<and>
   entries (set_pair \<lparr>key2value = [(''a'', 1::int), (''b'', 2)], value2key = [(1, ''a''), (2, ''b'')]\<rparr>
           ''b'' 2)
     = entries \<lparr>key2value = [(''a'', 1::int), (''b'', 2)], value2key = [(1, ''a''), (2, ''b'')]\<rparr>"
proof -
  let ?b = "\<lparr>key2value = [(''a'', 1::int), (''b'', 2)], value2key = [(1, ''a''), (2, ''b'')]\<rparr>"
  have r: "reachable ?b" using from_a1_b2 by (rule reachable_from_pairs)
  have g: "getValue ?b ''b'' = Some 2" by (simp add: getValue_def)
  have s: "set_pair ?b ''b'' 2 = ?b"
    by (simp add: set_pair_def hasKey_def hasValue_def deleteKey_def deleteValue_def Let_def)
  show ?thesis unfolding s using r g by simp
qed

end
